theory Spec2Isabelle
  imports Complex_Main "HOL-Library.Product_Lexorder" "HOL-Library.Multiset" "HOL-Library.AList"
begin

section \<open>Python numerics\<close>

text \<open>
  Python integers are unbounded: they are \<open>int\<close>. Python floats are modelled by the
  real numbers: every float the program computes is an integer, a half-integer or a
  quotient of such numbers, rounding is left out. \<open>int(v)\<close> on a float truncates
  toward zero; \<open>int(np.sign(v))\<close> is the sign as an integer.
\<close>

definition py_int :: "real \<Rightarrow> int" where
  "py_int v = (if 0 \<le> v then \<lfloor>v\<rfloor> else \<lceil>v\<rceil>)"

definition np_sign :: "real \<Rightarrow> int" where
  "np_sign v = (if v < 0 then - 1 else if 0 < v then 1 else 0)"

section \<open>SizeScaler: \<open>scale_dimension\<close>\<close>

definition scale_dimension :: "int \<Rightarrow> int \<Rightarrow> int \<Rightarrow> int \<Rightarrow> int \<Rightarrow> int" where
  "scale_dimension count' min_count max_count min_size max_size =
     (if max_count = min_count then (min_size + max_size) div 2
      else
        let normalized = real_of_int (count' - min_count) / real_of_int (max_count - min_count)
        in py_int (real_of_int min_size + normalized * real_of_int (max_size - min_size)))"

section \<open>Images, placements and rectangles\<close>

text \<open>
  A PIL image is its pixel data (of an arbitrary type \<open>'px\<close>) and its \<open>size\<close>
  attribute. An entry of \<open>placements\<close> is the dictionary
  \<open>{'img', 'x', 'y', 'w', 'h'}\<close>. A rectangle is the tuple \<open>(x, y, w, h)\<close>.
\<close>

record 'px pil_image =
  img_px :: 'px
  img_w :: int
  img_h :: int

record 'px placement =
  p_img :: "'px pil_image"
  p_x :: int
  p_y :: int
  p_w :: int
  p_h :: int

type_synonym rect = "int \<times> int \<times> int \<times> int"

definition rect_of :: "'px placement \<Rightarrow> rect" where
  "rect_of p = (p_x p, p_y p, p_w p, p_h p)"

fun rects_overlap :: "rect \<Rightarrow> rect \<Rightarrow> bool" where
  "rects_overlap (ax, ay, aw, ah) (bx, by, bw, bh) =
     (\<not> (ax + aw \<le> bx \<or> bx + bw \<le> ax \<or> ay + ah \<le> by \<or> by + bh \<le> ay))"

definition center_distance :: "int \<Rightarrow> int \<Rightarrow> int \<Rightarrow> int \<Rightarrow> real" where
  "center_distance x y w h =
     (let cx = real_of_int x + real_of_int w / 2;
          cy = real_of_int y + real_of_int h / 2
      in sqrt (cx * cx + cy * cy))"

section \<open>Placer\<close>

subsection \<open>Candidate generation\<close>

definition candidates_around :: "int \<Rightarrow> int \<Rightarrow> int \<Rightarrow> int \<Rightarrow> int \<Rightarrow> int \<Rightarrow> (int \<times> int) list" where
  "candidates_around px py pw ph iw ih =
     [(px + pw, py),
      (px + pw, py + ph - ih),
      (px + pw, py + (ph - ih) div 2),
      (px - iw, py),
      (px - iw, py + ph - ih),
      (px - iw, py + (ph - ih) div 2),
      (px, py + ph),
      (px + (pw - iw) div 2, py + ph),
      (px, py - ih),
      (px + (pw - iw) div 2, py - ih)]"

definition adjacency_candidates :: "'px placement list \<Rightarrow> int \<Rightarrow> int \<Rightarrow> (int \<times> int) list" where
  "adjacency_candidates placements iw ih =
     concat (map (\<lambda>p. candidates_around (p_x p) (p_y p) (p_w p) (p_h p) iw ih) placements)"

text \<open>The bounding box \<open>(min_x, min_y, max_x, max_y)\<close> of the placed rectangles.\<close>

definition bbox :: "'px placement list \<Rightarrow> int \<times> int \<times> int \<times> int" where
  "bbox placements =
     (Min (set (map p_x placements)),
      Min (set (map p_y placements)),
      Max (set (map (\<lambda>p. p_x p + p_w p) placements)),
      Max (set (map (\<lambda>p. p_y p + p_h p) placements)))"

definition bbox_candidates :: "int \<times> int \<times> int \<times> int \<Rightarrow> int \<Rightarrow> int \<Rightarrow> (int \<times> int) list" where
  "bbox_candidates bb iw ih =
     (case bb of (min_x, min_y, max_x, max_y) \<Rightarrow>
        concat (map (\<lambda>t. [(min_x - iw + t * 1, min_y + t),
                           (max_x + t, min_y + t),
                           (min_x + t, max_y + t),
                           (max_x + t, max_y - ih + t)]) [- 2 .. 2]))"

fun dedupe :: "(int \<times> int) set \<Rightarrow> (int \<times> int) list \<Rightarrow> (int \<times> int) list" where
  "dedupe seen [] = []"
| "dedupe seen (c # cs) =
     (if c \<in> seen then dedupe seen cs else c # dedupe (insert c seen) cs)"

subsection \<open>Scoring\<close>

text \<open>
  The inner loop over \<open>placements\<close> for one candidate: it stops at the first overlap and
  otherwise accumulates the \<open>touching\<close> flag. The result is \<open>(overlap, touching)\<close>.
\<close>

fun scan_placed :: "int \<Rightarrow> int \<Rightarrow> int \<Rightarrow> int \<Rightarrow> bool \<Rightarrow> 'px placement list \<Rightarrow> bool \<times> bool" where
  "scan_placed cx cy iw ih touching [] = (False, touching)"
| "scan_placed cx cy iw ih touching (p # ps) =
     (if rects_overlap (cx, cy, iw, ih) (p_x p, p_y p, p_w p, p_h p) then (True, touching)
      else scan_placed cx cy iw ih
             (if (cx + iw = p_x p \<or> cx = p_x p + p_w p \<or> cy + ih = p_y p \<or> cy = p_y p + p_h p)
                 \<and> (\<not> (cx + iw \<le> p_x p \<or> p_x p + p_w p \<le> cx) \<or> \<not> (cy + ih \<le> p_y p \<or> p_y p + p_h p \<le> cy))
              then True else touching) ps)"

type_synonym score = "bool \<times> real \<times> int \<times> int \<times> bool"

fun score_candidates :: "'px placement list \<Rightarrow> int \<Rightarrow> int \<Rightarrow> (int \<times> int) list \<Rightarrow> score list" where
  "score_candidates placements iw ih [] = []"
| "score_candidates placements iw ih ((cx, cy) # cs) =
     (case scan_placed cx cy iw ih False placements of
        (overlap, touching) \<Rightarrow>
          (if \<not> overlap then [(\<not> touching, center_distance cx cy iw ih, cx, cy, touching)] else [])
          @ score_candidates placements iw ih cs)"

subsection \<open>Spiral fallback and guaranteed fallback\<close>

definition spiral_max_radius :: "int \<times> int \<times> int \<times> int \<Rightarrow> int \<Rightarrow> int \<Rightarrow> int" where
  "spiral_max_radius bb iw ih =
     (case bb of (min_x, min_y, max_x, max_y) \<Rightarrow>
        max (max_x - min_x) (max_y - min_y) + max iw ih * 10)"

definition spiral_step :: "int \<Rightarrow> int \<Rightarrow> int" where
  "spiral_step iw ih = max 10 (py_int (real_of_int (min iw ih) / 2))"

definition spiral_angles :: "int list" where
  "spiral_angles = map (\<lambda>k. k * 10) [0 .. 35]"

definition spiral_point :: "real \<Rightarrow> real \<Rightarrow> int \<Rightarrow> int \<Rightarrow> int \<times> int" where
  "spiral_point center_x center_y r angle_deg =
     (let ang = real_of_int angle_deg * (3.14159265 / 180.0)
      in (py_int (center_x + real_of_int r * cos ang),
          py_int (center_y + real_of_int r * sin ang)))"

definition overlaps_any :: "'px placement list \<Rightarrow> rect \<Rightarrow> bool" where
  "overlaps_any placements rect = list_ex (\<lambda>p. rects_overlap rect (p_x p, p_y p, p_w p, p_h p)) placements"

text \<open>The \<open>for angle_deg in range(0, 360, 10)\<close> loop at one radius, with its \<open>break\<close>.\<close>

fun try_angles :: "'px placement list \<Rightarrow> real \<Rightarrow> real \<Rightarrow> int \<Rightarrow> int \<Rightarrow> int \<Rightarrow> int list \<Rightarrow> (int \<times> int) option" where
  "try_angles placements center_x center_y iw ih r [] = None"
| "try_angles placements center_x center_y iw ih r (angle_deg # rest) =
     (case spiral_point center_x center_y r angle_deg of
        (cx, cy) \<Rightarrow>
          if overlaps_any placements (cx, cy, iw, ih)
          then try_angles placements center_x center_y iw ih r rest
          else Some (cx, cy))"

text \<open>The \<open>while r < max_radius and not placed\<close> loop; \<open>None\<close> is \<open>placed = False\<close>.\<close>

function spiral_loop :: "'px placement list \<Rightarrow> real \<Rightarrow> real \<Rightarrow> int \<Rightarrow> int \<Rightarrow> int \<Rightarrow> int \<Rightarrow> (int \<times> int) option" where
  "spiral_loop placements center_x center_y iw ih max_radius r =
     (if r < max_radius then
        (case try_angles placements center_x center_y iw ih r spiral_angles of
           Some pos \<Rightarrow> Some pos
         | None \<Rightarrow> spiral_loop placements center_x center_y iw ih max_radius (r + spiral_step iw ih))
      else None)"
  by pat_completeness auto
termination
  by (relation "measure (\<lambda>(placements, center_x, center_y, iw, ih, max_radius, r). nat (max_radius - r))")
     (auto simp: spiral_step_def)

declare spiral_loop.simps [simp del]

definition spiral_search :: "'px placement list \<Rightarrow> int \<times> int \<times> int \<times> int \<Rightarrow> int \<Rightarrow> int \<Rightarrow> (int \<times> int) option" where
  "spiral_search placements bb iw ih =
     (case bb of (min_x, min_y, max_x, max_y) \<Rightarrow>
        let center_x = real_of_int (min_x + max_x) / 2;
            center_y = real_of_int (min_y + max_y) / 2;
            max_radius = spiral_max_radius bb iw ih;
            step = spiral_step iw ih
        in spiral_loop placements center_x center_y iw ih max_radius step)"

definition last_resort :: "int \<times> int \<times> int \<times> int \<Rightarrow> int \<times> int" where
  "last_resort bb = (case bb of (min_x, min_y, max_x, max_y) \<Rightarrow> (max_x + 1, min_y))"

subsection \<open>Placing one image, and all of them\<close>

definition scored_candidates :: "'px placement list \<Rightarrow> int \<Rightarrow> int \<Rightarrow> score list" where
  "scored_candidates placements iw ih =
     score_candidates placements iw ih
       (dedupe {} (adjacency_candidates placements iw ih @ bbox_candidates (bbox placements) iw ih))"

text \<open>The position chosen for an image of size \<open>(iw, ih)\<close>: one iteration of the placement loop.\<close>

definition choose_position :: "'px placement list \<Rightarrow> int \<Rightarrow> int \<Rightarrow> int \<times> int" where
  "choose_position placements iw ih =
     (let scored = scored_candidates placements iw ih
      in if scored \<noteq> [] then
           (case hd (sort scored) of (_, _, chosen_x, chosen_y, _) \<Rightarrow> (chosen_x, chosen_y))
         else
           (case spiral_search placements (bbox placements) iw ih of
              Some pos \<Rightarrow> pos
            | None \<Rightarrow> last_resort (bbox placements)))"

definition place_image :: "'px placement list \<Rightarrow> 'px pil_image \<Rightarrow> 'px placement list" where
  "place_image placements img =
     (let iw = img_w img; ih = img_h img
      in case choose_position placements iw ih of
           (cx, cy) \<Rightarrow> placements @ [\<lparr>p_img = img, p_x = cx, p_y = cy, p_w = iw, p_h = ih\<rparr>])"

text \<open>
  The Placer on a non-empty list of images: the first image goes to \<open>(0, 0)\<close>, the others
  are placed in order. (The caller returns before this point when \<open>images\<close> is empty.)
\<close>

definition place_all :: "'px pil_image list \<Rightarrow> 'px placement list" where
  "place_all images =
     (let first_img = hd images
      in fold (\<lambda>img placements. place_image placements img) (tl images)
           [\<lparr>p_img = first_img, p_x = 0, p_y = 0, p_w = img_w first_img, p_h = img_h first_img\<rparr>])"

section \<open>Tightener\<close>

datatype py_error = ZeroDivisionError

definition can_place_at :: "'px placement list \<Rightarrow> nat \<Rightarrow> int \<Rightarrow> int \<Rightarrow> bool" where
  "can_place_at placements idx x y =
     (let pw = p_w (placements ! idx);
          ph = p_h (placements ! idx);
          rect = (x, y, pw, ph)
      in list_all (\<lambda>(j, other). j = idx \<or> \<not> rects_overlap rect (p_x other, p_y other, p_w other, p_h other))
           (enumerate 0 placements))"

text \<open>
  The \<open>for step_num in range(3)\<close> loop for the rectangle \<open>i\<close>, with \<open>k\<close> iterations left.
  The state is \<open>(placements, moved_any)\<close> and the local copies \<open>px\<close>, \<open>py\<close>.
\<close>

fun nudge :: "real \<Rightarrow> real \<Rightarrow> nat \<Rightarrow> int \<Rightarrow> int \<Rightarrow> nat \<Rightarrow> int \<Rightarrow> int \<Rightarrow> 'px placement list \<times> bool \<Rightarrow> 'px placement list \<times> bool" where
  "nudge center_x center_y i pw ph 0 px py state = state"
| "nudge center_x center_y i pw ph (Suc k) px py (placements, moved_any) =
     (let cx = real_of_int px + real_of_int pw / 2;
          cy = real_of_int py + real_of_int ph / 2;
          vx = center_x - cx;
          vy = center_y - cy;
          step_x = np_sign vx;
          step_y = np_sign vy;
          try_x = (step_x \<noteq> 0 \<and> can_place_at placements i (px + step_x) py);
          px1 = (if try_x then px + step_x else px);
          placements1 = (if try_x then placements[i := (placements ! i)\<lparr>p_x := px1\<rparr>] else placements);
          try_y = (step_y \<noteq> 0 \<and> can_place_at placements1 i px1 (py + step_y));
          py1 = (if try_y then py + step_y else py);
          placements2 = (if try_y then placements1[i := (placements1 ! i)\<lparr>p_y := py1\<rparr>] else placements1);
          moved = (try_x \<or> try_y)
      in if \<not> moved then (placements2, moved_any)
         else nudge center_x center_y i pw ph k px1 py1 (placements2, True))"

definition nudge_rect :: "real \<Rightarrow> real \<Rightarrow> nat \<Rightarrow> 'px placement list \<times> bool \<Rightarrow> 'px placement list \<times> bool" where
  "nudge_rect center_x center_y i state =
     (let p = fst state ! i
      in nudge center_x center_y i (p_w p) (p_h p) 3 (p_x p) (p_y p) state)"

text \<open>One pass of the Tightener: the new placements and \<open>moved_any\<close>.\<close>

definition tighten_pass :: "'px placement list \<Rightarrow> 'px placement list \<times> bool" where
  "tighten_pass placements =
     (let centers_x = map (\<lambda>p. real_of_int (p_x p) + real_of_int (p_w p) / 2) placements;
          centers_y = map (\<lambda>p. real_of_int (p_y p) + real_of_int (p_h p) / 2) placements;
          center_x = sum_list centers_x / real (length centers_x);
          center_y = sum_list centers_y / real (length centers_y);
          dists = map (\<lambda>(i, p).
                    let cx = real_of_int (p_x p) + real_of_int (p_w p) / 2;
                        cy = real_of_int (p_y p) + real_of_int (p_h p) / 2;
                        d = (cx - center_x) ^ 2 + (cy - center_y) ^ 2
                    in (d, i)) (enumerate 0 placements)
      in fold (\<lambda>(d, i). nudge_rect center_x center_y i) (rev (sort dists)) (placements, False))"

fun tighten_loop :: "nat \<Rightarrow> 'px placement list \<Rightarrow> 'px placement list" where
  "tighten_loop 0 placements = placements"
| "tighten_loop (Suc n) placements =
     (case tighten_pass placements of
        (placements', moved_any) \<Rightarrow>
          if \<not> moved_any then placements' else tighten_loop n placements')"

text \<open>
  \<open>tighten_placements(placements, max_passes)\<close>. On an empty list the first pass divides
  by \<open>len(centers_x) = 0\<close>.
\<close>

definition tighten_placements :: "'px placement list \<Rightarrow> nat \<Rightarrow> py_error + 'px placement list" where
  "tighten_placements placements max_passes =
     (if placements = [] \<and> 0 < max_passes then Inl ZeroDivisionError
      else Inr (tighten_loop max_passes placements))"

section \<open>Composer\<close>

record 'px canvas =
  canvas_file :: string
  canvas_width :: int
  canvas_height :: int
  canvas_pasted :: "('px pil_image \<times> int \<times> int) list"

definition normalize_coords :: "'px placement list \<Rightarrow> ('px pil_image \<times> int \<times> int) list" where
  "normalize_coords placements =
     (case bbox placements of (min_x, min_y, max_x, max_y) \<Rightarrow>
        map (\<lambda>p. (p_img p, p_x p - min_x, p_y p - min_y)) placements)"

definition compose :: "string \<Rightarrow> 'px placement list \<Rightarrow> 'px canvas" where
  "compose output_file placements =
     (case bbox placements of (min_x, min_y, max_x, max_y) \<Rightarrow>
        \<lparr>canvas_file = output_file,
         canvas_width = max_x - min_x,
         canvas_height = max_y - min_y,
         canvas_pasted = normalize_coords placements\<rparr>)"

text \<open>The rectangle a pasted image covers on the canvas.\<close>

definition pasted_rect :: "'px pil_image \<times> int \<times> int \<Rightarrow> rect" where
  "pasted_rect t = (case t of (img, x, y) \<Rightarrow> (x, y, img_w img, img_h img))"

section \<open>The build: \<open>get_cover_path\<close> and \<open>build_cluster\<close>\<close>

text \<open>
  The file system and the image library are outside the program. \<open>fs_exists\<close> is
  \<open>os.path.exists\<close>; \<open>fs_load path size\<close> is the body of the \<open>try\<close> block that opens the
  file, converts it to RGB and resizes it to \<open>size\<close>: the pixel data of the resized image,
  or the text of the exception. A character of a string is a code point below 256, and
  \<open>isalnum\<close> is \<open>str.isalnum\<close> on these.
\<close>

record 'px filesystem =
  fs_exists :: "string \<Rightarrow> bool"
  fs_load :: "string \<Rightarrow> int \<times> int \<Rightarrow> string + 'px"

definition isalnum :: "char \<Rightarrow> bool" where
  "isalnum c =
     (let n = (of_char c :: nat)
      in (48 \<le> n \<and> n \<le> 57) \<or> (65 \<le> n \<and> n \<le> 90) \<or> (97 \<le> n \<and> n \<le> 122)
         \<or> n = 170 \<or> n = 178 \<or> n = 179 \<or> n = 181 \<or> n = 185 \<or> n = 186
         \<or> (188 \<le> n \<and> n \<le> 190) \<or> (192 \<le> n \<and> n \<le> 214)
         \<or> (216 \<le> n \<and> n \<le> 246) \<or> (248 \<le> n \<and> n \<le> 255))"

definition path_join :: "string \<Rightarrow> string \<Rightarrow> string" where
  "path_join a b =
     (if b \<noteq> [] \<and> hd b = CHR ''/'' then b
      else if a = [] \<or> last a = CHR ''/'' then a @ b
      else a @ ''/'' @ b)"

definition get_cover_path :: "'px filesystem \<Rightarrow> string \<Rightarrow> string \<Rightarrow> string option" where
  "get_cover_path fs album_name covers_dir =
     (let sanitized_name = map (\<lambda>c. if isalnum c then c else CHR ''_'') album_name;
          cover_path = path_join covers_dir (sanitized_name @ ''.jpg'')
      in if fs_exists fs cover_path then Some cover_path else None)"

record scaled_cover =
  sc_name :: string
  sc_path :: string
  sc_size :: int
  sc_count :: int

text \<open>The first loop of \<open>build_cluster\<close>: the covers found, and the warnings printed.\<close>

fun collect_covers :: "'px filesystem \<Rightarrow> string \<Rightarrow> int \<Rightarrow> int \<Rightarrow> (string \<times> int) list \<Rightarrow> scaled_cover list \<times> string list" where
  "collect_covers fs covers_dir min_count max_count [] = ([], [])"
| "collect_covers fs covers_dir min_count max_count ((album_name, count') # rest) =
     (case collect_covers fs covers_dir min_count max_count rest of
        (scaled_covers, printed) \<Rightarrow>
          (case get_cover_path fs album_name covers_dir of
             Some cover_path \<Rightarrow>
               (\<lparr>sc_name = album_name, sc_path = cover_path,
                 sc_size = scale_dimension count' min_count max_count 50 300,
                 sc_count = count'\<rparr> # scaled_covers, printed)
           | None \<Rightarrow> (scaled_covers, (''Warning: Cover not found for '' @ album_name) # printed)))"

text \<open>The second loop: the images loaded, and the errors printed.\<close>

fun load_images :: "'px filesystem \<Rightarrow> scaled_cover list \<Rightarrow> 'px pil_image list \<times> string list" where
  "load_images fs [] = ([], [])"
| "load_images fs (cover_info # rest) =
     (case load_images fs rest of
        (images, printed) \<Rightarrow>
          (case fs_load fs (sc_path cover_info) (sc_size cover_info, sc_size cover_info) of
             Inr px \<Rightarrow>
               (\<lparr>img_px = px, img_w = sc_size cover_info, img_h = sc_size cover_info\<rparr> # images, printed)
           | Inl e \<Rightarrow> (images, (''Error loading '' @ sc_name cover_info @ '': '' @ e) # printed)))"

fun str_nat :: "nat \<Rightarrow> string" where
  "str_nat n =
     (if n < 10 then [char_of (48 + n)]
      else str_nat (n div 10) @ [char_of (48 + n mod 10)])"

declare str_nat.simps [simp del]

definition str_int :: "int \<Rightarrow> string" where
  "str_int i = (if i < 0 then ''-'' @ str_nat (nat (- i)) else str_nat (nat i))"

datatype 'px outcome = Returned | Raised py_error | Saved "'px canvas"

text \<open>
  \<open>build_cluster\<close>: the lines printed and what became of the output file. \<open>albums\<close> is the
  dictionary in its iteration order.
\<close>

definition build_cluster :: "'px filesystem \<Rightarrow> (string \<times> int) list \<Rightarrow> string \<Rightarrow> string \<Rightarrow> string list \<times> 'px outcome" where
  "build_cluster fs albums covers_dir output_file =
     (if albums = [] then ([''No albums found''], Returned)
      else
        let min_count = Min (set (map snd albums));
            max_count = Max (set (map snd albums))
        in case collect_covers fs covers_dir min_count max_count albums of
             (scaled_covers, warnings) \<Rightarrow>
               if scaled_covers = [] then (warnings @ [''No album covers found''], Returned)
               else
                 (case load_images fs (sort_key (\<lambda>c. - sc_size c) scaled_covers) of
                    (images, errors) \<Rightarrow>
                      if images = [] then (warnings @ errors @ [''No images could be loaded''], Returned)
                      else
                        (case tighten_placements (place_all images) 100 of
                           Inl e \<Rightarrow> (warnings @ errors, Raised e)
                         | Inr placements \<Rightarrow>
                             let canvas = compose output_file placements
                             in (warnings @ errors @
                                 [''Cluster image saved to '' @ output_file,
                                  ''Total albums: '' @ str_nat (length (canvas_pasted canvas)),
                                  ''Canvas size: '' @ str_int (canvas_width canvas) @ ''x'' @ str_int (canvas_height canvas)],
                                 Saved canvas))))"

section \<open>The index file: \<open>parse_index_file\<close>\<close>

text \<open>
  \<open>str.isspace\<close> (also the class \<open>\s\<close> of \<open>re\<close>) and the digits \<open>\d\<close>, on code points below 256;
  \<open>str.strip\<close>, \<open>str.split("\n")\<close> and \<open>int\<close> on a string of digits.
\<close>

definition isspace :: "char \<Rightarrow> bool" where
  "isspace c =
     (let n = (of_char c :: nat)
      in (9 \<le> n \<and> n \<le> 13) \<or> (28 \<le> n \<and> n \<le> 32) \<or> n = 133 \<or> n = 160)"

definition isdigit :: "char \<Rightarrow> bool" where
  "isdigit c = (let n = (of_char c :: nat) in 48 \<le> n \<and> n \<le> 57)"

definition startswith :: "string \<Rightarrow> string \<Rightarrow> bool" where
  "startswith s t = (take (length t) s = t)"

definition strip :: "string \<Rightarrow> string" where
  "strip s = rev (dropWhile isspace (rev (dropWhile isspace s)))"

fun split_newline :: "string \<Rightarrow> string list" where
  "split_newline [] = [[]]"
| "split_newline (c # cs) =
     (if c = CHR 0x0A then [] # split_newline cs
      else (case split_newline cs of l # ls \<Rightarrow> (c # l) # ls | [] \<Rightarrow> [[c]]))"

fun int_of_digits :: "int \<Rightarrow> string \<Rightarrow> int" where
  "int_of_digits acc [] = acc"
| "int_of_digits acc (d # ds) = int_of_digits (acc * 10 + (int (of_char d) - 48)) ds"

text \<open>
  \<open>re.search\<close> for a pattern \<open>header(.*?)stop\<close> with \<open>re.DOTALL\<close>: the leftmost start at
  which the header matches and some continuation satisfies \<open>stop\<close>; the group is the
  shortest text before such a continuation. \<open>stop\<close> tells whether the rest of the content
  matches the end of the pattern.
\<close>

fun lazy_until :: "(string \<Rightarrow> bool) \<Rightarrow> string \<Rightarrow> string option" where
  "lazy_until stop [] = (if stop [] then Some [] else None)"
| "lazy_until stop (c # cs) =
     (if stop (c # cs) then Some [] else map_option ((#) c) (lazy_until stop cs))"

fun search_block :: "string \<Rightarrow> (string \<Rightarrow> bool) \<Rightarrow> string \<Rightarrow> string option" where
  "search_block header stop [] = None"
| "search_block header stop (c # cs) =
     (case (if startswith (c # cs) header then lazy_until stop (drop (length header) (c # cs)) else None) of
        Some block \<Rightarrow> Some block
      | None \<Rightarrow> search_block header stop cs)"

text \<open>
  \<open>re.match\<close> of a line against \<open>\s*(.+?):\s*(\d+)\s*songs\<close>. After the colon the match is
  determined (\<open>count_songs\<close>); before it the matcher tries the longest run of leading
  white space first and, for each, the shortest non-empty name.
\<close>

definition count_songs :: "string \<Rightarrow> string option" where
  "count_songs t =
     (let t1 = dropWhile isspace t;
          digits = takeWhile isdigit t1;
          t2 = dropWhile isspace (dropWhile isdigit t1)
      in if digits \<noteq> [] \<and> startswith t2 ''songs'' then Some digits else None)"

fun lazy_name :: "string \<Rightarrow> string \<Rightarrow> (string \<times> string) option" where
  "lazy_name name [] = None"
| "lazy_name name (c # cs) =
     (case (if c = CHR '':'' then count_songs cs else None) of
        Some digits \<Rightarrow> Some (name, digits)
      | None \<Rightarrow> lazy_name (name @ [c]) cs)"

fun first_match :: "string \<Rightarrow> nat list \<Rightarrow> (string \<times> string) option" where
  "first_match line [] = None"
| "first_match line (k # ks) =
     (case (case drop k line of [] \<Rightarrow> None | c # cs \<Rightarrow> lazy_name [c] cs) of
        Some m \<Rightarrow> Some m
      | None \<Rightarrow> first_match line ks)"

definition match_line :: "string \<Rightarrow> (string \<times> string) option" where
  "match_line line = first_match line (rev [0 ..< Suc (length (takeWhile isspace line))])"

text \<open>
  The loop over the lines of a block that fills a dictionary (an association list in
  insertion order), and \<open>parse_index_file\<close>. The content of the file is given decoded;
  \<open>files\<close> maps the names of the existing files to their content, and a missing file is the
  \<open>FileNotFoundError\<close> branch. The result is the lines printed and the pair
  \<open>(albums, artists)\<close>.
\<close>

definition parse_section :: "string \<Rightarrow> (string \<times> int) list" where
  "parse_section block =
     fold (\<lambda>line entries.
             case match_line line of
               Some (name, digits) \<Rightarrow> AList.update name (int_of_digits 0 digits) entries
             | None \<Rightarrow> entries)
       (split_newline (strip block)) []"

definition parse_index_content :: "string \<Rightarrow> (string \<times> int) list \<times> (string \<times> int) list" where
  "parse_index_content content =
     (let albums =
            (case search_block (''Album Index:'' @ [CHR 0x0A])
                    (\<lambda>s. startswith s (CHR 0x0A # ''Artist Index:'') \<or> startswith s (CHR 0x0A # ''Total songs:''))
                    content of
               Some block \<Rightarrow> parse_section block
             | None \<Rightarrow> []);
          artists =
            (case search_block (''Artist Index:'' @ [CHR 0x0A])
                    (\<lambda>s. startswith s (CHR 0x0A # ''Total songs:'') \<or> s = [CHR 0x0A] \<or> s = [CHR 0x0A, CHR 0x0A])
                    content of
               Some block \<Rightarrow> parse_section block
             | None \<Rightarrow> [])
      in (albums, artists))"

definition parse_index_file :: "(string \<rightharpoonup> string) \<Rightarrow> string \<Rightarrow> string list \<times> (string \<times> int) list \<times> (string \<times> int) list" where
  "parse_index_file files index_file =
     (case files index_file of
        Some content \<Rightarrow> ([], parse_index_content content)
      | None \<Rightarrow> ([''Error: '' @ index_file @ '' not found''], [], []))"

section \<open>Predicates used to state the properties\<close>

text \<open>
  No two different entries of a layout overlap: \<open>rects_overlap\<close> is false for every pair of
  different indices.
\<close>

definition no_overlap :: "'px placement list \<Rightarrow> bool" where
  "no_overlap ps =
     list_all (\<lambda>(i, p). list_all (\<lambda>(j, q). i = j \<or> \<not> rects_overlap (rect_of p) (rect_of q)) (enumerate 0 ps))
       (enumerate 0 ps)"

text \<open>
  What the Tightener must leave alone: the image, the width and the height of an entry.
  \<open>image_shape\<close> is the same triple for a freshly created entry of an image.
\<close>
definition shape :: "'px placement \<Rightarrow> 'px pil_image \<times> int \<times> int" where
  "shape p = (p_img p, p_w p, p_h p)"

definition image_shape :: "'px pil_image \<Rightarrow> 'px pil_image \<times> int \<times> int" where
  "image_shape i = (i, img_w i, img_h i)"

text \<open>An entry for a square image of side \<open>s\<close> at \<open>(x, y)\<close>, without pixel data: for examples.\<close>
definition square_at :: "int \<Rightarrow> int \<Rightarrow> int \<Rightarrow> unit placement" where
  "square_at s x y = \<lparr>p_img = \<lparr>img_px = (), img_w = s, img_h = s\<rparr>, p_x = x, p_y = y, p_w = s, p_h = s\<rparr>"

text \<open>
  The side an item is scaled to, and the image it resolves to: its cover exists and loads.
  \<open>loaded_images\<close> is the list \<open>images\<close> of \<open>build_cluster\<close>, and \<open>final_layout\<close> the
  placements after the Tightener. \<open>found_cover\<close> and \<open>load_cover\<close> are one iteration of the
  two loops that build \<open>images\<close>.
\<close>
definition item_size :: "(string \<times> int) list \<Rightarrow> string \<times> int \<Rightarrow> int" where
  "item_size albums a =
     scale_dimension (snd a) (Min (set (map snd albums))) (Max (set (map snd albums))) 50 300"

definition resolve :: "'px filesystem \<Rightarrow> string \<Rightarrow> (string \<times> int) list \<Rightarrow> string \<times> int \<Rightarrow> 'px pil_image option" where
  "resolve fs covers_dir albums a =
     (case get_cover_path fs (fst a) covers_dir of
        None \<Rightarrow> None
      | Some cover_path \<Rightarrow>
          (case fs_load fs cover_path (item_size albums a, item_size albums a) of
             Inl e \<Rightarrow> None
           | Inr px \<Rightarrow> Some \<lparr>img_px = px, img_w = item_size albums a, img_h = item_size albums a\<rparr>))"

definition loaded_images :: "'px filesystem \<Rightarrow> string \<Rightarrow> (string \<times> int) list \<Rightarrow> 'px pil_image list" where
  "loaded_images fs covers_dir albums =
     List.map_filter (resolve fs covers_dir albums) (sort_key (\<lambda>a. - item_size albums a) albums)"

definition found_cover :: "'px filesystem \<Rightarrow> string \<Rightarrow> int \<Rightarrow> int \<Rightarrow> string \<times> int \<Rightarrow> scaled_cover option" where
  "found_cover fs covers_dir min_count max_count a =
     map_option (\<lambda>cover_path. \<lparr>sc_name = fst a, sc_path = cover_path,
                   sc_size = scale_dimension (snd a) min_count max_count 50 300, sc_count = snd a\<rparr>)
       (get_cover_path fs (fst a) covers_dir)"

definition load_cover :: "'px filesystem \<Rightarrow> scaled_cover \<Rightarrow> 'px pil_image option" where
  "load_cover fs c =
     (case fs_load fs (sc_path c) (sc_size c, sc_size c) of
        Inl e \<Rightarrow> None
      | Inr px \<Rightarrow> Some \<lparr>img_px = px, img_w = sc_size c, img_h = sc_size c\<rparr>)"

definition final_layout :: "'px filesystem \<Rightarrow> string \<Rightarrow> (string \<times> int) list \<Rightarrow> 'px placement list" where
  "final_layout fs covers_dir albums = tighten_loop 100 (place_all (loaded_images fs covers_dir albums))"

text \<open>A file system for examples: one cover exists, and no file can be loaded.\<close>
definition no_files :: "unit filesystem" where
  "no_files = \<lparr>fs_exists = (\<lambda>path. path = ''covers/B.jpg''), fs_load = (\<lambda>path size. Inl ''cannot identify image file'')\<rparr>"

text \<open>
  The grid cells a rectangle covers: the half-open interval \<open>[x, x + w)\<close> times
  \<open>[y, y + h)\<close>. A file system for examples in which every cover exists and loads.
\<close>
definition box :: "rect \<Rightarrow> (int \<times> int) set" where
  "box r = (case r of (x, y, w, h) \<Rightarrow> {x ..< x + w} \<times> {y ..< y + h})"

definition all_files :: "unit filesystem" where
  "all_files = \<lparr>fs_exists = (\<lambda>path. True), fs_load = (\<lambda>path size. Inr ())\<rparr>"

text \<open>
  The spiral fallback in closed form: the radii the \<open>while\<close> loop visits are the multiples
  of the step below the bound, and \<open>spiral_scan\<close> lists the positions it tests, in order.
\<close>
definition spiral_radii :: "int \<Rightarrow> int \<Rightarrow> int list" where
  "spiral_radii step max_radius =
     filter (\<lambda>r. r < max_radius) (map (\<lambda>k. int k * step) [1 ..< nat max_radius + 1])"

definition spiral_scan :: "int \<times> int \<times> int \<times> int \<Rightarrow> int \<Rightarrow> int \<Rightarrow> (int \<times> int) list" where
  "spiral_scan bb iw ih =
     (case bb of (min_x, min_y, max_x, max_y) \<Rightarrow>
        concat (map (\<lambda>r. map (spiral_point (real_of_int (min_x + max_x) / 2) (real_of_int (min_y + max_y) / 2) r)
                           spiral_angles)
                  (spiral_radii (spiral_step iw ih) (spiral_max_radius bb iw ih))))"


text \<open>
  Forgetting the pixel data of images and entries, and the layout a finished build has
  saved: the pasted rectangles in order and the size of the canvas. \<open>layout_for\<close> computes
  that layout from images without pixel data. \<open>centroid\<close> and \<open>centroid_distance\<close> name
  the values a pass of the Tightener computes first.
\<close>
definition erase_image :: "'px pil_image \<Rightarrow> unit pil_image" where
  "erase_image i = \<lparr>img_px = (), img_w = img_w i, img_h = img_h i\<rparr>"

definition erase :: "'px placement \<Rightarrow> unit placement" where
  "erase p = \<lparr>p_img = erase_image (p_img p), p_x = p_x p, p_y = p_y p, p_w = p_w p, p_h = p_h p\<rparr>"

definition layout_of :: "'px outcome \<Rightarrow> (rect list \<times> int \<times> int) option" where
  "layout_of result =
     (case result of
        Saved canvas \<Rightarrow> Some (map pasted_rect (canvas_pasted canvas), canvas_width canvas, canvas_height canvas)
      | Returned \<Rightarrow> None
      | Raised e \<Rightarrow> None)"

definition centroid :: "'px placement list \<Rightarrow> real \<times> real" where
  "centroid ps =
     (sum_list (map (\<lambda>p. real_of_int (p_x p) + real_of_int (p_w p) / 2) ps) / real (length ps),
      sum_list (map (\<lambda>p. real_of_int (p_y p) + real_of_int (p_h p) / 2) ps) / real (length ps))"

definition centroid_distance :: "real \<times> real \<Rightarrow> 'px placement \<Rightarrow> real" where
  "centroid_distance c p =
     (real_of_int (p_x p) + real_of_int (p_w p) / 2 - fst c) ^ 2
       + (real_of_int (p_y p) + real_of_int (p_h p) / 2 - snd c) ^ 2"

definition layout_for :: "unit pil_image list \<Rightarrow> (rect list \<times> int \<times> int) option" where
  "layout_for imgs =
     (if imgs = [] then None
      else
        let placements = tighten_loop 100 (place_all imgs)
        in case bbox placements of (min_x, min_y, max_x, max_y) \<Rightarrow>
             Some (map pasted_rect (normalize_coords placements), max_x - min_x, max_y - min_y))"

text \<open>A second file system for examples, with other pixel data and every cover present.\<close>
definition numbered_files :: "nat filesystem" where
  "numbered_files = \<lparr>fs_exists = (\<lambda>path. True), fs_load = (\<lambda>path size. Inr (length path))\<rparr>"

section \<open>Properties of the SizeScaler\<close>

lemma py_int_of_int: "py_int (real_of_int n) = n"
  by (simp add: py_int_def)

lemma py_int_mono: "a \<le> b \<Longrightarrow> py_int a \<le> py_int b"
proof -
  assume ab: "a \<le> b"
  show ?thesis
  proof (cases "0 \<le> a")
    case True
    with ab show ?thesis by (simp add: py_int_def floor_mono)
  next
    case False
    show ?thesis
    proof (cases "0 \<le> b")
      case True
      have "\<lceil>a\<rceil> \<le> 0" using False by (simp add: ceiling_le_iff)
      moreover have "0 \<le> \<lfloor>b\<rfloor>" using True by simp
      moreover have "py_int a = \<lceil>a\<rceil>" "py_int b = \<lfloor>b\<rfloor>"
        using False True by (simp_all add: py_int_def)
      ultimately show ?thesis by linarith
    next
      case b: False
      with False ab show ?thesis by (simp add: py_int_def ceiling_mono)
    qed
  qed
qed

lemma scale_real_mono:
  fixes c1 c2 min_count max_count min_size max_size :: int
  assumes "min_count < max_count" "min_size \<le> max_size" "c1 \<le> c2"
  shows "real_of_int min_size + real_of_int (c1 - min_count) / real_of_int (max_count - min_count) * real_of_int (max_size - min_size)
       \<le> real_of_int min_size + real_of_int (c2 - min_count) / real_of_int (max_count - min_count) * real_of_int (max_size - min_size)"
proof -
  have d: "0 < real_of_int (max_count - min_count)" using assms(1) by simp
  have s: "0 \<le> real_of_int (max_size - min_size)" using assms(2) by simp
  have "real_of_int (c1 - min_count) \<le> real_of_int (c2 - min_count)" using assms(3) by simp
  then have "real_of_int (c1 - min_count) / real_of_int (max_count - min_count)
      \<le> real_of_int (c2 - min_count) / real_of_int (max_count - min_count)"
    using d by (simp add: divide_right_mono)
  then show ?thesis using s by (intro add_left_mono mult_right_mono)
qed

lemma scale_dimension_mono:
  assumes "min_count \<le> max_count" "min_size \<le> max_size" "c1 \<le> c2"
  shows "scale_dimension c1 min_count max_count min_size max_size
       \<le> scale_dimension c2 min_count max_count min_size max_size"
proof (cases "max_count = min_count")
  case True
  then show ?thesis by (simp add: scale_dimension_def)
next
  case False
  with assms(1) have lt: "min_count < max_count" by simp
  show ?thesis
    using False py_int_mono [OF scale_real_mono [OF lt assms(2) assms(3)]]
    by (simp add: scale_dimension_def Let_def)
qed

lemma scale_dimension_min:
  assumes "min_count < max_count"
  shows "scale_dimension min_count min_count max_count min_size max_size = min_size"
  using assms by (simp add: scale_dimension_def py_int_of_int)

lemma scale_dimension_max:
  assumes "min_count < max_count"
  shows "scale_dimension max_count min_count max_count min_size max_size = max_size"
proof -
  have "real_of_int (max_count - min_count) / real_of_int (max_count - min_count) = 1"
    using assms by simp
  then have e: "real_of_int min_size + real_of_int (max_count - min_count) / real_of_int (max_count - min_count) * real_of_int (max_size - min_size)
     = real_of_int max_size" by simp
  from assms have ne: "max_count \<noteq> min_count" by simp
  show ?thesis unfolding scale_dimension_def Let_def
    by (simp only: ne if_False e py_int_of_int)
qed


lemma scale_dimension_range:
  assumes "min_count \<le> max_count" "min_size \<le> max_size" "min_count \<le> c" "c \<le> max_count"
  shows "min_size \<le> scale_dimension c min_count max_count min_size max_size
       \<and> scale_dimension c min_count max_count min_size max_size \<le> max_size"
proof (cases "max_count = min_count")
  case True
  have "min_size \<le> (min_size + max_size) div 2 \<and> (min_size + max_size) div 2 \<le> max_size"
    using assms(2) by arith
  with True show ?thesis by (simp add: scale_dimension_def)
next
  case False
  with assms(1) have lt: "min_count < max_count" by simp
  show ?thesis
    using scale_dimension_mono [OF assms(1) assms(2) assms(3)]
      scale_dimension_mono [OF assms(1) assms(2) assms(4)]
      scale_dimension_min [OF lt, of min_size max_size] scale_dimension_max [OF lt, of min_size max_size]
    by simp
qed



section \<open>The Placer never creates an overlap\<close>

lemma no_overlap_iff:
  "no_overlap ps \<longleftrightarrow>
     (\<forall>i j. i < length ps \<and> j < length ps \<and> i \<noteq> j \<longrightarrow> \<not> rects_overlap (rect_of (ps ! i)) (rect_of (ps ! j)))"
proof -
  have e: "set (enumerate 0 ps) = {(i, ps ! i) | i. i < length ps}"
    by (auto simp: in_set_enumerate_eq)
  show ?thesis unfolding no_overlap_def list_all_iff e by blast
qed

lemma rects_overlap_sym: "rects_overlap a b = rects_overlap b a"
  by (cases a, cases b) auto

lemma rects_overlap_shift:
  "rects_overlap (ax - dx, ay - dy, aw, ah) (bx - dx, by - dy, bw, bh) = rects_overlap (ax, ay, aw, ah) (bx, by, bw, bh)"
  by auto

lemma no_overlap_single: "no_overlap [p]"
  by (simp add: no_overlap_iff)

lemma no_overlap_append:
  assumes "no_overlap ps" and "\<forall>p \<in> set ps. \<not> rects_overlap (rect_of q) (rect_of p)"
  shows "no_overlap (ps @ [q])"
  unfolding no_overlap_iff
proof (intro allI impI)
  fix i j
  assume h: "i < length (ps @ [q]) \<and> j < length (ps @ [q]) \<and> i \<noteq> j"
  show "\<not> rects_overlap (rect_of ((ps @ [q]) ! i)) (rect_of ((ps @ [q]) ! j))"
  proof (cases "i < length ps")
    case i: True
    show ?thesis
    proof (cases "j < length ps")
      case True
      with i h assms(1) show ?thesis by (simp add: no_overlap_iff nth_append)
    next
      case False
      with h have "j = length ps" by simp
      with i assms(2) show ?thesis
        by (simp add: nth_append rects_overlap_sym [of "rect_of (ps ! i)"])
    qed
  next
    case False
    with h have i: "i = length ps" and j: "j < length ps" by auto
    with assms(2) show ?thesis by (simp add: nth_append)
  qed
qed

lemma scan_placed_overlap:
  "fst (scan_placed cx cy iw ih t ps) \<longleftrightarrow> (\<exists>p \<in> set ps. rects_overlap (cx, cy, iw, ih) (rect_of p))"
  by (induction ps arbitrary: t) (auto simp: rect_of_def)

lemma score_candidates_free:
  assumes "s \<in> set (score_candidates ps iw ih cs)"
  shows "\<forall>p \<in> set ps. \<not> rects_overlap (fst (snd (snd s)), fst (snd (snd (snd s))), iw, ih) (rect_of p)"
  using assms
proof (induction cs)
  case Nil
  then show ?case by simp
next
  case (Cons c cs)
  obtain cx cy where c: "c = (cx, cy)" by (cases c)
  obtain ov t where sp: "scan_placed cx cy iw ih False ps = (ov, t)" by (cases "scan_placed cx cy iw ih False ps")
  show ?case
  proof (cases "s \<in> set (score_candidates ps iw ih cs)")
    case True
    then show ?thesis using Cons.IH by simp
  next
    case False
    with Cons.prems c sp have s: "s = (\<not> t, center_distance cx cy iw ih, cx, cy, t)" and "\<not> ov"
      by (auto split: if_splits)
    with sp scan_placed_overlap [of cx cy iw ih False ps] show ?thesis by simp
  qed
qed

lemma hd_sort_in_set: "xs \<noteq> [] \<Longrightarrow> hd (sort xs) \<in> set xs"
proof -
  assume "xs \<noteq> []"
  then have "sort xs \<noteq> []" by (metis length_0_conv length_sort)
  then have "hd (sort xs) \<in> set (sort xs)" by (rule hd_in_set)
  then show ?thesis by simp
qed

lemma try_angles_free:
  "try_angles ps center_x center_y iw ih r angles = Some (cx, cy) \<Longrightarrow> \<not> overlaps_any ps (cx, cy, iw, ih)"
  by (induction angles) (auto split: prod.splits if_splits)

lemma spiral_loop_free:
  "spiral_loop ps center_x center_y iw ih max_radius r = Some (cx, cy) \<Longrightarrow> \<not> overlaps_any ps (cx, cy, iw, ih)"
proof (induction ps center_x center_y iw ih max_radius r rule: spiral_loop.induct)
  case (1 ps center_x center_y iw ih max_radius r)
  show ?case
  proof (cases "r < max_radius")
    case False
    with "1.prems" show ?thesis by (simp add: spiral_loop.simps [of ps center_x center_y iw ih max_radius r])
  next
    case True
    show ?thesis
    proof (cases "try_angles ps center_x center_y iw ih r spiral_angles")
      case None
      with True "1.prems" "1.IH" show ?thesis
        by (simp add: spiral_loop.simps [of ps center_x center_y iw ih max_radius r])
    next
      case (Some pos)
      with True "1.prems" have "pos = (cx, cy)"
        by (simp add: spiral_loop.simps [of ps center_x center_y iw ih max_radius r])
      with Some try_angles_free show ?thesis by blast
    qed
  qed
qed

lemma overlaps_any_iff: "overlaps_any ps r \<longleftrightarrow> (\<exists>p \<in> set ps. rects_overlap r (rect_of p))"
  by (simp add: overlaps_any_def list_ex_iff rect_of_def)

lemma last_resort_free:
  assumes "p \<in> set ps"
  shows "\<not> rects_overlap (fst (last_resort (bbox ps)), snd (last_resort (bbox ps)), iw, ih) (rect_of p)"
proof -
  have "p_x p + p_w p \<le> Max (set (map (\<lambda>p. p_x p + p_w p) ps))"
    using assms by (intro Max_ge) auto
  then show ?thesis by (simp add: last_resort_def bbox_def rect_of_def)
qed

lemma spiral_search_free:
  assumes "spiral_search ps bb iw ih = Some (cx, cy)"
  shows "\<not> overlaps_any ps (cx, cy, iw, ih)"
proof -
  obtain min_x min_y max_x max_y where bb: "bb = (min_x, min_y, max_x, max_y)" by (cases bb)
  from assms show ?thesis unfolding spiral_search_def bb Let_def prod.case
    by (rule spiral_loop_free)
qed

lemma choose_position_free:
  assumes "choose_position ps iw ih = (cx, cy)" and "p \<in> set ps"
  shows "\<not> rects_overlap (cx, cy, iw, ih) (rect_of p)"
proof (cases "scored_candidates ps iw ih = []")
  case False
  define s where "s = hd (sort (scored_candidates ps iw ih))"
  have "s \<in> set (scored_candidates ps iw ih)" unfolding s_def using False by (rule hd_sort_in_set)
  then have free: "\<forall>p \<in> set ps. \<not> rects_overlap (fst (snd (snd s)), fst (snd (snd (snd s))), iw, ih) (rect_of p)"
    unfolding scored_candidates_def by (rule score_candidates_free)
  have "(cx, cy) = (fst (snd (snd s)), fst (snd (snd (snd s))))"
    using assms(1) False by (simp add: choose_position_def s_def split: prod.splits)
  with free assms(2) show ?thesis by simp
next
  case True
  show ?thesis
  proof (cases "spiral_search ps (bbox ps) iw ih")
    case None
    with True assms(1) have "(cx, cy) = last_resort (bbox ps)" by (simp add: choose_position_def)
    then have "cx = fst (last_resort (bbox ps))" "cy = snd (last_resort (bbox ps))" by (metis fst_conv, metis snd_conv)
    with last_resort_free [OF assms(2)] show ?thesis by simp
  next
    case (Some pos)
    with True assms(1) have pos: "pos = (cx, cy)" by (simp add: choose_position_def)
    from Some have "\<not> overlaps_any ps (cx, cy, iw, ih)"
      unfolding pos by (rule spiral_search_free)
    with assms(2) show ?thesis by (auto simp: overlaps_any_iff)
  qed
qed

lemma place_image_eq:
  "place_image ps img =
     ps @ [\<lparr>p_img = img, p_x = fst (choose_position ps (img_w img) (img_h img)),
            p_y = snd (choose_position ps (img_w img) (img_h img)),
            p_w = img_w img, p_h = img_h img\<rparr>]"
  by (simp add: place_image_def Let_def split: prod.splits)

lemma place_image_no_overlap:
  assumes "no_overlap ps"
  shows "no_overlap (place_image ps img)"
proof -
  obtain cx cy where c: "choose_position ps (img_w img) (img_h img) = (cx, cy)"
    by (cases "choose_position ps (img_w img) (img_h img)")
  have "\<forall>p \<in> set ps. \<not> rects_overlap (cx, cy, img_w img, img_h img) (rect_of p)"
    using choose_position_free [OF c] by blast
  then show ?thesis
    unfolding place_image_eq c using assms
    by (intro no_overlap_append) (simp_all add: rect_of_def)
qed

lemma place_image_shape:
  "map shape (place_image ps img) = map shape ps @ [image_shape img]"
  by (simp add: place_image_eq shape_def image_shape_def)

lemma fold_place_no_overlap:
  "no_overlap ps \<Longrightarrow> no_overlap (fold (\<lambda>img placements. place_image placements img) imgs ps)"
  by (induction imgs arbitrary: ps) (simp_all add: place_image_no_overlap)

lemma fold_place_shape:
  "map shape (fold (\<lambda>img placements. place_image placements img) imgs ps) = map shape ps @ map image_shape imgs"
  by (induction imgs arbitrary: ps) (simp_all add: place_image_shape)


lemma place_all_no_overlap: "no_overlap (place_all images)"
  unfolding place_all_def Let_def by (rule fold_place_no_overlap) (rule no_overlap_single)

lemma place_all_shape:
  assumes "images \<noteq> []"
  shows "map shape (place_all images) = map image_shape images"
proof -
  from assms obtain i rest where "images = i # rest" by (cases images) auto
  then show ?thesis
    by (simp add: place_all_def fold_place_shape shape_def image_shape_def)
qed


lemma upto_window: "[- 2 .. 2] = [- 2, - 1, 0, 1, 2 :: int]"
  by code_simp

lemma bbox_candidates_list:
  "bbox_candidates (min_x, min_y, max_x, max_y) iw ih =
     [(min_x - iw - 2, min_y - 2), (max_x - 2, min_y - 2), (min_x - 2, max_y - 2), (max_x - 2, max_y - ih - 2),
      (min_x - iw - 1, min_y - 1), (max_x - 1, min_y - 1), (min_x - 1, max_y - 1), (max_x - 1, max_y - ih - 1),
      (min_x - iw, min_y), (max_x, min_y), (min_x, max_y), (max_x, max_y - ih),
      (min_x - iw + 1, min_y + 1), (max_x + 1, min_y + 1), (min_x + 1, max_y + 1), (max_x + 1, max_y - ih + 1),
      (min_x - iw + 2, min_y + 2), (max_x + 2, min_y + 2), (min_x + 2, max_y + 2), (max_x + 2, max_y - ih + 2)]"
  unfolding bbox_candidates_def upto_window by simp

section \<open>The Tightener moves rectangles only, and only to free positions\<close>

lemma can_place_at_iff:
  "can_place_at ps i x y \<longleftrightarrow>
     (\<forall>j. j < length ps \<and> j \<noteq> i \<longrightarrow> \<not> rects_overlap (x, y, p_w (ps ! i), p_h (ps ! i)) (rect_of (ps ! j)))"
proof -
  have e: "set (enumerate 0 ps) = {(j, ps ! j) | j. j < length ps}"
    by (auto simp: in_set_enumerate_eq)
  show ?thesis unfolding can_place_at_def Let_def list_all_iff e rect_of_def by blast
qed

lemma no_overlap_update:
  assumes "no_overlap ps" and "i < length ps"
    and "\<forall>j. j < length ps \<and> j \<noteq> i \<longrightarrow> \<not> rects_overlap (rect_of q) (rect_of (ps ! j))"
  shows "no_overlap (ps[i := q])"
  unfolding no_overlap_iff
proof (intro allI impI)
  fix a b
  assume h: "a < length (ps[i := q]) \<and> b < length (ps[i := q]) \<and> a \<noteq> b"
  show "\<not> rects_overlap (rect_of (ps[i := q] ! a)) (rect_of (ps[i := q] ! b))"
  proof (cases "a = i")
    case True
    with h assms(3) show ?thesis by simp
  next
    case a: False
    show ?thesis
    proof (cases "b = i")
      case True
      with h a assms(3) show ?thesis by (simp add: rects_overlap_sym [of "rect_of (ps ! a)"])
    next
      case False
      with a h assms(1) show ?thesis by (simp add: no_overlap_iff)
    qed
  qed
qed

lemma move_x_no_overlap:
  assumes "no_overlap ps" and "i < length ps" and "can_place_at ps i x (p_y (ps ! i))"
  shows "no_overlap (ps[i := (ps ! i)\<lparr>p_x := x\<rparr>])"
  using assms(3) by (intro no_overlap_update assms) (simp add: can_place_at_iff rect_of_def)

lemma move_y_no_overlap:
  assumes "no_overlap ps" and "i < length ps" and "can_place_at ps i (p_x (ps ! i)) y"
  shows "no_overlap (ps[i := (ps ! i)\<lparr>p_y := y\<rparr>])"
  using assms(3) by (intro no_overlap_update assms) (simp add: can_place_at_iff rect_of_def)

lemma move_x_shape: "map shape (ps[i := (ps ! i)\<lparr>p_x := x\<rparr>]) = map shape ps"
  by (simp add: map_update shape_def) (metis list_update_id map_update shape_def)

lemma move_y_shape: "map shape (ps[i := (ps ! i)\<lparr>p_y := y\<rparr>]) = map shape ps"
  by (simp add: map_update shape_def) (metis list_update_id map_update shape_def)

lemma nudge_Suc:
  "nudge center_x center_y i pw ph (Suc k) px py (ps, m) =
     (let step_x = np_sign (center_x - (real_of_int px + real_of_int pw / 2));
          step_y = np_sign (center_y - (real_of_int py + real_of_int ph / 2));
          try_x = (step_x \<noteq> 0 \<and> can_place_at ps i (px + step_x) py);
          px1 = (if try_x then px + step_x else px);
          ps1 = (if try_x then ps[i := (ps ! i)\<lparr>p_x := px1\<rparr>] else ps);
          try_y = (step_y \<noteq> 0 \<and> can_place_at ps1 i px1 (py + step_y));
          py1 = (if try_y then py + step_y else py);
          ps2 = (if try_y then ps1[i := (ps1 ! i)\<lparr>p_y := py1\<rparr>] else ps1)
      in if \<not> (try_x \<or> try_y) then (ps2, m)
         else nudge center_x center_y i pw ph k px1 py1 (ps2, True))"
  by (simp add: Let_def)

lemma nudge_inv:
  assumes "i < length ps" and "no_overlap ps" and "px = p_x (ps ! i)" and "py = p_y (ps ! i)"
  shows "no_overlap (fst (nudge center_x center_y i pw ph k px py (ps, m)))
       \<and> map shape (fst (nudge center_x center_y i pw ph k px py (ps, m))) = map shape ps"
  using assms
proof (induction k arbitrary: ps px py m)
  case 0
  then show ?case by simp
next
  case (Suc k)
  define step_x where "step_x = np_sign (center_x - (real_of_int px + real_of_int pw / 2))"
  define step_y where "step_y = np_sign (center_y - (real_of_int py + real_of_int ph / 2))"
  define try_x where "try_x = (step_x \<noteq> 0 \<and> can_place_at ps i (px + step_x) py)"
  define px1 where "px1 = (if try_x then px + step_x else px)"
  define ps1 where "ps1 = (if try_x then ps[i := (ps ! i)\<lparr>p_x := px1\<rparr>] else ps)"
  define try_y where "try_y = (step_y \<noteq> 0 \<and> can_place_at ps1 i px1 (py + step_y))"
  define py1 where "py1 = (if try_y then py + step_y else py)"
  define ps2 where "ps2 = (if try_y then ps1[i := (ps1 ! i)\<lparr>p_y := py1\<rparr>] else ps1)"
  have unfold: "nudge center_x center_y i pw ph (Suc k) px py (ps, m) =
      (if \<not> (try_x \<or> try_y) then (ps2, m) else nudge center_x center_y i pw ph k px1 py1 (ps2, True))"
    unfolding nudge_Suc Let_def ps2_def py1_def try_y_def ps1_def px1_def try_x_def step_x_def step_y_def
    by (rule refl)
  have len1: "i < length ps1" using Suc.prems(1) by (simp add: ps1_def)
  have no1: "no_overlap ps1"
  proof (cases try_x)
    case True
    then have "can_place_at ps i px1 (p_y (ps ! i))" using Suc.prems(4) by (simp add: try_x_def px1_def)
    with True show ?thesis unfolding ps1_def using Suc.prems(1,2) by (simp add: move_x_no_overlap)
  next
    case False
    then show ?thesis using Suc.prems(2) by (simp add: ps1_def)
  qed
  have sh1: "map shape ps1 = map shape ps" by (simp add: ps1_def move_x_shape)
  have x1: "p_x (ps1 ! i) = px1" and y1: "p_y (ps1 ! i) = py"
    using Suc.prems(1,3,4) by (simp_all add: ps1_def px1_def)
  have len2: "i < length ps2" using len1 by (simp add: ps2_def)
  have no2: "no_overlap ps2"
  proof (cases try_y)
    case True
    then have "can_place_at ps1 i (p_x (ps1 ! i)) py1" using x1 by (simp add: try_y_def py1_def)
    with True show ?thesis unfolding ps2_def using len1 no1 by (simp add: move_y_no_overlap)
  next
    case False
    then show ?thesis using no1 by (simp add: ps2_def)
  qed
  have sh2: "map shape ps2 = map shape ps" using sh1 by (simp add: ps2_def move_y_shape)
  have x2: "px1 = p_x (ps2 ! i)" and y2: "py1 = p_y (ps2 ! i)"
    using len1 x1 y1 by (simp_all add: ps2_def py1_def)
  show ?case
  proof (cases "try_x \<or> try_y")
    case False
    then show ?thesis unfolding unfold using no2 sh2 by simp
  next
    case True
    then show ?thesis unfolding unfold using Suc.IH [OF len2 no2 x2 y2, of True] sh2 by simp
  qed
qed

lemma nudge_True:
  "snd (nudge center_x center_y i pw ph k px py (ps, True))"
proof (induction k arbitrary: px py ps)
  case 0
  then show ?case by simp
next
  case (Suc k)
  then show ?case unfolding nudge_Suc Let_def by (simp split: if_splits)
qed

lemma nudge_unmoved:
  assumes "\<not> snd (nudge center_x center_y i pw ph k px py (ps, m))"
  shows "nudge center_x center_y i pw ph k px py (ps, m) = (ps, False)"
proof (cases k)
  case 0
  with assms show ?thesis by simp
next
  case (Suc k')
  define step_x where "step_x = np_sign (center_x - (real_of_int px + real_of_int pw / 2))"
  define step_y where "step_y = np_sign (center_y - (real_of_int py + real_of_int ph / 2))"
  define try_x where "try_x = (step_x \<noteq> 0 \<and> can_place_at ps i (px + step_x) py)"
  define px1 where "px1 = (if try_x then px + step_x else px)"
  define ps1 where "ps1 = (if try_x then ps[i := (ps ! i)\<lparr>p_x := px1\<rparr>] else ps)"
  define try_y where "try_y = (step_y \<noteq> 0 \<and> can_place_at ps1 i px1 (py + step_y))"
  define py1 where "py1 = (if try_y then py + step_y else py)"
  define ps2 where "ps2 = (if try_y then ps1[i := (ps1 ! i)\<lparr>p_y := py1\<rparr>] else ps1)"
  have unfold: "nudge center_x center_y i pw ph k px py (ps, m) =
      (if \<not> (try_x \<or> try_y) then (ps2, m) else nudge center_x center_y i pw ph k' px1 py1 (ps2, True))"
    unfolding Suc nudge_Suc Let_def ps2_def py1_def try_y_def ps1_def px1_def try_x_def step_x_def step_y_def
    by (rule refl)
  show ?thesis
  proof (cases "try_x \<or> try_y")
    case True
    with assms nudge_True [of center_x center_y i pw ph k' px1 py1 ps2] show ?thesis
      unfolding unfold by simp
  next
    case False
    then have "ps2 = ps" by (simp add: ps2_def ps1_def)
    with False assms show ?thesis unfolding unfold by simp
  qed
qed

lemma nudge_rect_inv:
  assumes "i < length ps" and "no_overlap ps"
  shows "no_overlap (fst (nudge_rect center_x center_y i (ps, m)))
       \<and> map shape (fst (nudge_rect center_x center_y i (ps, m))) = map shape ps"
  unfolding nudge_rect_def Let_def fst_conv
  by (rule nudge_inv [OF assms]) simp_all

lemma nudge_rect_unmoved:
  assumes "\<not> snd (nudge_rect center_x center_y i (ps, m))"
  shows "nudge_rect center_x center_y i (ps, m) = (ps, False)"
  using assms unfolding nudge_rect_def Let_def fst_conv by (rule nudge_unmoved)

lemma nudge_rect_True: "snd (nudge_rect center_x center_y i (ps, True))"
  unfolding nudge_rect_def Let_def fst_conv by (rule nudge_True)

lemma fold_nudge_inv:
  assumes "\<forall>e \<in> set order. snd e < length ps" and "no_overlap ps"
  shows "no_overlap (fst (fold (\<lambda>(d, i). nudge_rect center_x center_y i) order (ps, m)))
       \<and> map shape (fst (fold (\<lambda>(d, i). nudge_rect center_x center_y i) order (ps, m))) = map shape ps"
  using assms
proof (induction order arbitrary: ps m)
  case Nil
  then show ?case by simp
next
  case (Cons e order)
  obtain d i where e: "e = (d, i)" by (cases e)
  obtain ps' m' where st: "nudge_rect center_x center_y i (ps, m) = (ps', m')"
    by (cases "nudge_rect center_x center_y i (ps, m)")
  have i: "i < length ps" using Cons.prems(1) e by simp
  have inv: "no_overlap ps'" "map shape ps' = map shape ps"
    using nudge_rect_inv [OF i Cons.prems(2), of center_x center_y m] st by simp_all
  then have "length ps' = length ps" by (metis length_map)
  then have idx: "\<forall>e \<in> set order. snd e < length ps'" using Cons.prems(1) by simp
  show ?case using Cons.IH [OF idx inv(1), of m'] inv(2) by (simp add: e st)
qed

lemma fold_nudge_True:
  "snd (fold (\<lambda>(d, i). nudge_rect center_x center_y i) order (ps, True))"
proof (induction order arbitrary: ps)
  case Nil
  then show ?case by simp
next
  case (Cons e order)
  obtain d i where e: "e = (d, i)" by (cases e)
  obtain ps' m' where st: "nudge_rect center_x center_y i (ps, True) = (ps', m')"
    by (cases "nudge_rect center_x center_y i (ps, True)")
  with nudge_rect_True [of center_x center_y i ps] have "m'" by simp
  with Cons.IH [of ps'] show ?case by (simp add: e st)
qed

lemma fold_nudge_unmoved:
  assumes "\<not> snd (fold (\<lambda>(d, i). nudge_rect center_x center_y i) order (ps, m))"
  shows "fold (\<lambda>(d, i). nudge_rect center_x center_y i) order (ps, m) = (ps, False)"
  using assms
proof (induction order arbitrary: ps m)
  case Nil
  then show ?case by simp
next
  case (Cons e order)
  obtain d i where e: "e = (d, i)" by (cases e)
  obtain ps' m' where st: "nudge_rect center_x center_y i (ps, m) = (ps', m')"
    by (cases "nudge_rect center_x center_y i (ps, m)")
  have rest: "\<not> snd (fold (\<lambda>(d, i). nudge_rect center_x center_y i) order (ps', m'))"
    using Cons.prems by (simp add: e st)
  have "\<not> m'" using rest fold_nudge_True [of center_x center_y order ps'] by (cases m') auto
  then have "nudge_rect center_x center_y i (ps, m) = (ps, False)"
    using nudge_rect_unmoved [of center_x center_y i ps m] st by simp
  with st have "ps' = ps" "m' = False" by simp_all
  with Cons.IH [of ps False] rest show ?case by (simp add: e st)
qed

lemma tighten_order_indices:
  "\<forall>e \<in> set (rev (sort (map (\<lambda>(i, p). (f i p, i)) (enumerate 0 ps)))). snd e < length ps"
  by (auto simp: in_set_enumerate_eq)

lemma tighten_pass_inv:
  assumes "no_overlap ps"
  shows "no_overlap (fst (tighten_pass ps)) \<and> map shape (fst (tighten_pass ps)) = map shape ps"
  unfolding tighten_pass_def Let_def
  by (rule fold_nudge_inv [OF tighten_order_indices assms])

lemma tighten_pass_unmoved:
  assumes "\<not> snd (tighten_pass ps)"
  shows "tighten_pass ps = (ps, False)"
  using assms unfolding tighten_pass_def Let_def by (rule fold_nudge_unmoved)

lemma tighten_loop_inv:
  assumes "no_overlap ps"
  shows "no_overlap (tighten_loop n ps) \<and> map shape (tighten_loop n ps) = map shape ps"
  using assms
proof (induction n arbitrary: ps)
  case 0
  then show ?case by simp
next
  case (Suc n)
  obtain ps' m where st: "tighten_pass ps = (ps', m)" by (cases "tighten_pass ps")
  have inv: "no_overlap ps'" "map shape ps' = map shape ps"
    using tighten_pass_inv [OF Suc.prems] st by simp_all
  show ?case using Suc.IH [OF inv(1)] inv by (simp add: st)
qed

lemma tighten_loop_fixed:
  assumes "\<not> snd (tighten_pass ps)"
  shows "tighten_loop n ps = ps"
  using tighten_pass_unmoved [OF assms] by (cases n) simp_all

lemma tighten_loop_stops:
  assumes "\<not> snd (tighten_pass (tighten_loop k ps))" and "k \<le> n"
  shows "tighten_loop n ps = tighten_loop k ps"
  using assms
proof (induction k arbitrary: ps n)
  case 0
  then show ?case by (simp add: tighten_loop_fixed)
next
  case (Suc k)
  then obtain n' where n: "n = Suc n'" and kn: "k \<le> n'" by (cases n) auto
  obtain ps' m where st: "tighten_pass ps = (ps', m)" by (cases "tighten_pass ps")
  show ?case
  proof (cases m)
    case False
    then show ?thesis by (simp add: n st)
  next
    case True
    with Suc.prems(1) st have "\<not> snd (tighten_pass (tighten_loop k ps'))" by simp
    from Suc.IH [OF this kn] True show ?thesis by (simp add: n st)
  qed
qed

lemma nudge_shape:
  "map shape (fst (nudge center_x center_y i pw ph k px py (ps, m))) = map shape ps"
proof (induction k arbitrary: ps px py m)
  case 0
  then show ?case by simp
next
  case (Suc k)
  define step_x where "step_x = np_sign (center_x - (real_of_int px + real_of_int pw / 2))"
  define step_y where "step_y = np_sign (center_y - (real_of_int py + real_of_int ph / 2))"
  define try_x where "try_x = (step_x \<noteq> 0 \<and> can_place_at ps i (px + step_x) py)"
  define px1 where "px1 = (if try_x then px + step_x else px)"
  define ps1 where "ps1 = (if try_x then ps[i := (ps ! i)\<lparr>p_x := px1\<rparr>] else ps)"
  define try_y where "try_y = (step_y \<noteq> 0 \<and> can_place_at ps1 i px1 (py + step_y))"
  define py1 where "py1 = (if try_y then py + step_y else py)"
  define ps2 where "ps2 = (if try_y then ps1[i := (ps1 ! i)\<lparr>p_y := py1\<rparr>] else ps1)"
  have unfold: "nudge center_x center_y i pw ph (Suc k) px py (ps, m) =
      (if \<not> (try_x \<or> try_y) then (ps2, m) else nudge center_x center_y i pw ph k px1 py1 (ps2, True))"
    unfolding nudge_Suc Let_def ps2_def py1_def try_y_def ps1_def px1_def try_x_def step_x_def step_y_def
    by (rule refl)
  have sh1: "map shape ps1 = map shape ps" by (simp add: ps1_def move_x_shape)
  have sh2: "map shape ps2 = map shape ps" using sh1 by (simp add: ps2_def move_y_shape)
  show ?case unfolding unfold using Suc.IH [of px1 py1 ps2 True] sh2 by simp
qed

lemma nudge_rect_shape:
  "map shape (fst (nudge_rect center_x center_y i (ps, m))) = map shape ps"
  unfolding nudge_rect_def Let_def fst_conv by (rule nudge_shape)

lemma fold_nudge_shape:
  "map shape (fst (fold (\<lambda>(d, i). nudge_rect center_x center_y i) order (ps, m))) = map shape ps"
proof (induction order arbitrary: ps m)
  case Nil
  then show ?case by simp
next
  case (Cons e order)
  obtain d i where e: "e = (d, i)" by (cases e)
  obtain ps' m' where st: "nudge_rect center_x center_y i (ps, m) = (ps', m')"
    by (cases "nudge_rect center_x center_y i (ps, m)")
  have "map shape ps' = map shape ps" using nudge_rect_shape [of center_x center_y i ps m] st by simp
  with Cons.IH [of ps' m'] show ?case by (simp add: e st)
qed

lemma tighten_pass_shape: "map shape (fst (tighten_pass ps)) = map shape ps"
  unfolding tighten_pass_def Let_def by (rule fold_nudge_shape)

lemma tighten_loop_shape: "map shape (tighten_loop n ps) = map shape ps"
proof (induction n arbitrary: ps)
  case 0
  then show ?case by simp
next
  case (Suc n)
  obtain ps' m where st: "tighten_pass ps = (ps', m)" by (cases "tighten_pass ps")
  have "map shape ps' = map shape ps" using tighten_pass_shape [of ps] st by simp
  with Suc.IH [of ps'] show ?case by (simp add: st)
qed

lemma tighten_loop_length: "length (tighten_loop n ps) = length ps"
  using tighten_loop_shape [of n ps] by (metis length_map)

section \<open>Running the Tightener twice\<close>

text \<open>
  Two squares of side 50 on one row, at least 6 pixels apart: a pass moves each of them
  3 pixels toward the other.
\<close>

lemma square_at_sel: "p_x (square_at s x y) = x" "p_y (square_at s x y) = y" "p_w (square_at s x y) = s" "p_h (square_at s x y) = s"
  "(square_at s x y)\<lparr>p_x := x'\<rparr> = square_at s x' y" "(square_at s x y)\<lparr>p_y := y'\<rparr> = square_at s x y'"
  by (simp_all add: square_at_def)

lemma nudge_B:
  assumes "a + 56 \<le> b" and "cx < real_of_int b + 23"
  shows "nudge_rect cx 25 (Suc 0) ([square_at 50 a 0, square_at 50 b 0], m) = ([square_at 50 a 0, square_at 50 (b - 3) 0], True)"
  using assms
  by (simp add: nudge_rect_def square_at_sel numeral_3_eq_3 Let_def np_sign_def can_place_at_def enumerate_eq_zip)

lemma nudge_A:
  assumes "a + 56 \<le> b" and "real_of_int a + 27 < cx"
  shows "nudge_rect cx 25 0 ([square_at 50 a 0, square_at 50 (b - 3) 0], m) = ([square_at 50 (a + 3) 0, square_at 50 (b - 3) 0], True)"
  using assms
  by (simp add: nudge_rect_def square_at_sel numeral_3_eq_3 Let_def np_sign_def can_place_at_def enumerate_eq_zip)
     (simp add: square_at_def)

lemma far_pass:
  assumes "a + 56 \<le> b"
  shows "tighten_pass [square_at 50 a 0, square_at 50 b 0] = ([square_at 50 (a + 3) 0, square_at 50 (b - 3) 0], True)"
proof -
  define cx where "cx = (50 + (real_of_int a + real_of_int b)) / 2"
  have ab: "real_of_int a + 56 \<le> real_of_int b" using assms by linarith
  have B: "cx < real_of_int b + 23" and A: "real_of_int a + 27 < cx"
    using ab by (simp_all add: cx_def)
  have eq: "(real_of_int a + 25 - cx)\<^sup>2 = (real_of_int b + 25 - cx)\<^sup>2"
    by (simp add: cx_def power2_eq_square field_simps)
  show ?thesis
    unfolding tighten_pass_def Let_def
    by (simp add: square_at_sel enumerate_eq_zip cx_def [symmetric] eq nudge_B [OF assms B] nudge_A [OF assms A])
qed

lemma far_loop:
  assumes "a + 6 * int n + 50 \<le> b"
  shows "tighten_loop n [square_at 50 a 0, square_at 50 b 0] = [square_at 50 (a + 3 * int n) 0, square_at 50 (b - 3 * int n) 0]"
  using assms
proof (induction n arbitrary: a b)
  case 0
  then show ?case by simp
next
  case (Suc n)
  have "a + 56 \<le> b" using Suc.prems by simp
  note p = far_pass [OF this]
  have "(a + 3) + 6 * int n + 50 \<le> b - 3" using Suc.prems by simp
  from Suc.IH [OF this] show ?case by (simp add: p algebra_simps)
qed

lemma equal_squares_fixed:
  "tighten_pass [square_at 175 0 0, square_at 175 (- 175) 0] = ([square_at 175 0 0, square_at 175 (- 175) 0], False)"
  by (simp add: tighten_pass_def square_at_def enumerate_eq_zip nudge_rect_def can_place_at_def np_sign_def Let_def numeral_3_eq_3)

text \<open>
  C4 (amended). When the first run of the Tightener, with \<open>n\<close> passes allowed, reaches after
  \<open>k \<le> n\<close> passes a layout on which a pass moves nothing, it returns that layout; a second
  run, with any number of passes allowed, returns it again, and its first pass makes no move.
\<close>

theorem tighten_idempotent_at_fixed_point:
  assumes "ps \<noteq> []" and "k \<le> n"
    and "\<not> snd (tighten_pass (tighten_loop k ps))"
  shows "tighten_placements ps n = Inr (tighten_loop k ps)
       \<and> tighten_pass (tighten_loop k ps) = (tighten_loop k ps, False)
       \<and> tighten_placements (tighten_loop k ps) m = Inr (tighten_loop k ps)"
proof -
  have ne: "tighten_loop k ps \<noteq> []"
    using assms(1) tighten_loop_length [of k ps] by (metis length_0_conv)
  have 1: "tighten_loop n ps = tighten_loop k ps"
    using assms(3,2) by (rule tighten_loop_stops)
  have 2: "tighten_loop m (tighten_loop k ps) = tighten_loop k ps"
    using assms(3) by (rule tighten_loop_fixed)
  show ?thesis
    using assms(1) ne 1 2 tighten_pass_unmoved [OF assms(3)]
    by (simp add: tighten_placements_def)
qed

theorem tighten_idempotent_at_fixed_point_witness:
  "[square_at 175 0 0, square_at 175 (- 175) 0] \<noteq> [] \<and> (0::nat) \<le> 100
   \<and> \<not> snd (tighten_pass (tighten_loop 0 [square_at 175 0 0, square_at 175 (- 175) 0]))
   \<and> tighten_placements [square_at 175 0 0, square_at 175 (- 175) 0] 100 = Inr [square_at 175 0 0, square_at 175 (- 175) 0]
   \<and> tighten_placements (tighten_loop 0 [square_at 175 0 0, square_at 175 (- 175) 0]) 100
       = Inr [square_at 175 0 0, square_at 175 (- 175) 0]"
  using tighten_idempotent_at_fixed_point [of "[square_at 175 0 0, square_at 175 (- 175) 0]" 0 100 100]
  by (simp add: equal_squares_fixed)

text \<open>
  C4 as stated fails: a run makes at most 100 passes of at most 3 pixels each. Two squares
  of side 50 that start 1950 pixels apart are moved 300 pixels each by the first run, and
  300 pixels more by the second.
\<close>

theorem tighten_twice_counterexample:
  "tighten_placements [square_at 50 0 0, square_at 50 2000 0] 100 = Inr [square_at 50 300 0, square_at 50 1700 0]
   \<and> tighten_placements [square_at 50 300 0, square_at 50 1700 0] 100 = Inr [square_at 50 600 0, square_at 50 1400 0]
   \<and> [square_at 50 300 0, square_at 50 1700 0] \<noteq> [square_at 50 600 0, square_at 50 1400 0]"
  using far_loop [of 0 100 2000] far_loop [of 300 100 1700]
  by (simp add: tighten_placements_def square_at_def)

text \<open>
  A run can also end without reaching a fixed point because rectangles oscillate around
  the centroid: here the two layouts are one pass apart, in both directions.
\<close>

lemma oscillation_passes:
  "tighten_pass [square_at 300 0 (- 62), square_at 50 (- 50) 62] = ([square_at 300 0 (- 63), square_at 50 (- 50) 63], True)"
  "tighten_pass [square_at 300 0 (- 63), square_at 50 (- 50) 63] = ([square_at 300 0 (- 62), square_at 50 (- 50) 62], True)"
  by (simp_all add: tighten_pass_def square_at_def enumerate_eq_zip nudge_rect_def can_place_at_def np_sign_def Let_def numeral_3_eq_3)

section \<open>The build as a whole\<close>

lemma collect_covers_fst:
  "fst (collect_covers fs covers_dir min_count max_count albums)
     = List.map_filter (found_cover fs covers_dir min_count max_count) albums"
  by (induction albums) (auto simp: found_cover_def split: prod.splits option.splits)

lemma load_images_fst: "fst (load_images fs covers) = List.map_filter (load_cover fs) covers"
  by (induction covers) (auto simp: load_cover_def split: prod.splits sum.splits)

lemma set_map_filter: "set (List.map_filter g xs) = {y. \<exists>x \<in> set xs. g x = Some y}"
  by (induction xs) (auto split: option.splits)

lemma map_filter_insort_None:
  "g x = None \<Longrightarrow> List.map_filter g (insort_key h x xs) = List.map_filter g xs"
  by (induction xs) (auto split: option.splits)

lemma map_filter_insort_Some:
  assumes "g x = Some y" and "\<forall>a b. g a = Some b \<longrightarrow> f b = h a" and "sorted (map h xs)"
  shows "List.map_filter g (insort_key h x xs) = insort_key f y (List.map_filter g xs)"
  using assms(3)
proof (induction xs)
  case Nil
  then show ?case using assms(1) by simp
next
  case (Cons z zs)
  have fy: "f y = h x" using assms(1,2) by blast
  show ?case
  proof (cases "h x \<le> h z")
    case True
    have "\<forall>w \<in> set (List.map_filter g (z # zs)). f y \<le> f w"
    proof
      fix w assume "w \<in> set (List.map_filter g (z # zs))"
      then obtain a where a: "a \<in> set (z # zs)" "g a = Some w"
        unfolding set_map_filter by blast
      then have "h z \<le> h a" using Cons.prems by auto
      with a assms(2) True fy show "f y \<le> f w" by (metis order_trans)
    qed
    then have "insort_key f y (List.map_filter g (z # zs)) = y # List.map_filter g (z # zs)"
      by (rule insort_is_Cons)
    with True assms(1) show ?thesis by simp
  next
    case False
    have s: "sorted (map h zs)" using Cons.prems by simp
    show ?thesis
    proof (cases "g z")
      case None
      with False Cons.IH [OF s] show ?thesis by simp
    next
      case (Some w)
      then have "f w = h z" using assms(2) by blast
      with False fy Some Cons.IH [OF s] show ?thesis by simp
    qed
  qed
qed

lemma map_filter_sort_key:
  assumes "\<forall>a b. g a = Some b \<longrightarrow> f b = h a"
  shows "List.map_filter g (sort_key h xs) = sort_key f (List.map_filter g xs)"
proof (induction xs)
  case Nil
  then show ?case by simp
next
  case (Cons x xs)
  show ?case
  proof (cases "g x")
    case None
    then show ?thesis using Cons.IH by (simp add: map_filter_insort_None)
  next
    case (Some y)
    have "sorted (map h (sort_key h xs))" by (rule sorted_sort_key)
    from map_filter_insort_Some [OF Some assms this] Some Cons.IH
    show ?thesis by simp
  qed
qed

lemma load_found:
  "Option.bind (found_cover fs covers_dir (Min (set (map snd albums))) (Max (set (map snd albums))) a) (load_cover fs)
     = resolve fs covers_dir albums a"
  by (simp add: found_cover_def load_cover_def resolve_def item_size_def split: option.splits sum.splits)

lemma map_filter_bind:
  "List.map_filter g (List.map_filter f xs) = List.map_filter (\<lambda>x. Option.bind (f x) g) xs"
  by (induction xs) (auto split: option.splits)

lemma images_eq:
  "fst (load_images fs (sort_key (\<lambda>c. - sc_size c)
        (fst (collect_covers fs covers_dir (Min (set (map snd albums))) (Max (set (map snd albums))) albums))))
     = loaded_images fs covers_dir albums"
proof -
  let ?found = "found_cover fs covers_dir (Min (set (map snd albums))) (Max (set (map snd albums)))"
  have key: "\<forall>a c. ?found a = Some c \<longrightarrow> - sc_size c = - item_size albums a"
    by (auto simp: found_cover_def item_size_def)
  have "sort_key (\<lambda>c. - sc_size c) (List.map_filter ?found albums)
      = List.map_filter ?found (sort_key (\<lambda>a. - item_size albums a) albums)"
    using map_filter_sort_key [OF key] by simp
  then show ?thesis
    unfolding collect_covers_fst load_images_fst loaded_images_def
    by (simp only: map_filter_bind load_found)
qed

lemma place_all_length: "images \<noteq> [] \<Longrightarrow> length (place_all images) = length images"
  using place_all_shape [of images] by (metis length_map)

lemma tighten_placements_place_all:
  assumes "images \<noteq> []"
  shows "tighten_placements (place_all images) n = Inr (tighten_loop n (place_all images))"
proof -
  have "place_all images \<noteq> []" using place_all_length [OF assms] assms by auto
  then show ?thesis by (simp add: tighten_placements_def)
qed

lemma build_cluster_outcome:
  "snd (build_cluster fs albums covers_dir output_file) =
     (if loaded_images fs covers_dir albums = [] then Returned
      else Saved (compose output_file (final_layout fs covers_dir albums)))"
proof (cases "albums = []")
  case True
  then show ?thesis by (simp add: build_cluster_def loaded_images_def)
next
  case False
  let ?mn = "Min (set (map snd albums))" and ?mx = "Max (set (map snd albums))"
  obtain scaled_covers warnings where cc: "collect_covers fs covers_dir ?mn ?mx albums = (scaled_covers, warnings)"
    by (cases "collect_covers fs covers_dir ?mn ?mx albums")
  obtain images errors where li: "load_images fs (sort_key (\<lambda>c. - sc_size c) scaled_covers) = (images, errors)"
    by (cases "load_images fs (sort_key (\<lambda>c. - sc_size c) scaled_covers)")
  have img: "images = loaded_images fs covers_dir albums"
    using images_eq [of fs covers_dir albums] cc li by simp
  show ?thesis
  proof (cases "scaled_covers = []")
    case True
    with li have "images = []" by simp
    with True False cc img show ?thesis by (simp add: build_cluster_def Let_def)
  next
    case sc: False
    show ?thesis
    proof (cases "images = []")
      case True
      with sc False cc li img show ?thesis by (simp add: build_cluster_def Let_def)
    next
      case ne: False
      from sc ne False cc li img tighten_placements_place_all [OF ne, of 100]
      show ?thesis by (simp add: build_cluster_def Let_def final_layout_def)
    qed
  qed
qed

lemma collect_covers_snd:
  "snd (collect_covers fs covers_dir min_count max_count albums)
     = map (\<lambda>a. ''Warning: Cover not found for '' @ fst a)
         (filter (\<lambda>a. get_cover_path fs (fst a) covers_dir = None) albums)"
  by (induction albums) (auto split: prod.splits option.splits)

lemma load_images_snd:
  "snd (load_images fs covers)
     = List.map_filter (\<lambda>c. case fs_load fs (sc_path c) (sc_size c, sc_size c) of
                               Inl e \<Rightarrow> Some (''Error loading '' @ sc_name c @ '': '' @ e)
                             | Inr px \<Rightarrow> None) covers"
  by (induction covers) (auto split: prod.splits sum.splits)

lemma build_cluster_printed:
  assumes "albums \<noteq> []"
    and "collect_covers fs covers_dir (Min (set (map snd albums))) (Max (set (map snd albums))) albums = (scaled_covers, warnings)"
    and "load_images fs (sort_key (\<lambda>c. - sc_size c) scaled_covers) = (images, errors)"
  shows "\<exists>rest. rest \<noteq> [] \<and> fst (build_cluster fs albums covers_dir output_file)
           = warnings @ (if scaled_covers = [] then [] else errors) @ rest
         \<and> (snd (build_cluster fs albums covers_dir output_file) = Returned \<longrightarrow>
              rest = [''No album covers found''] \<or> rest = [''No images could be loaded''])"
proof -
  have ne: "images \<noteq> [] \<Longrightarrow> tighten_placements (place_all images) 100 = Inr (tighten_loop 100 (place_all images))"
    by (rule tighten_placements_place_all)
  show ?thesis
  proof (cases "scaled_covers = []")
    case True
    with assms show ?thesis by (simp add: build_cluster_def Let_def)
  next
    case sc: False
    show ?thesis
    proof (cases "images = []")
      case True
      with sc assms show ?thesis by (simp add: build_cluster_def Let_def)
    next
      case False
      with sc assms ne show ?thesis by (simp add: build_cluster_def Let_def)
    qed
  qed
qed

lemma item_size_range:
  assumes "a \<in> set albums"
  shows "50 \<le> item_size albums a \<and> item_size albums a \<le> 300"
proof -
  have "Min (set (map snd albums)) \<le> snd a" "snd a \<le> Max (set (map snd albums))"
    using assms by (auto intro!: Min_le Max_ge)
  moreover from this have "Min (set (map snd albums)) \<le> Max (set (map snd albums))" by linarith
  ultimately show ?thesis
    unfolding item_size_def by (intro scale_dimension_range) simp_all
qed

lemma loaded_images_item:
  assumes "img \<in> set (loaded_images fs covers_dir albums)"
  shows "\<exists>a \<in> set albums. resolve fs covers_dir albums a = Some img
           \<and> img_w img = item_size albums a \<and> img_h img = item_size albums a"
proof -
  from assms obtain a where a: "a \<in> set albums" "resolve fs covers_dir albums a = Some img"
    unfolding loaded_images_def set_map_filter by auto
  from a(2) have "img_w img = item_size albums a \<and> img_h img = item_size albums a"
    by (auto simp: resolve_def split: option.splits sum.splits)
  with a show ?thesis by blast
qed

lemma mset_map_filter_sort:
  "mset (List.map_filter g (sort_key h xs)) = mset (List.map_filter g xs)"
proof -
  have "mset (List.map_filter g ys) = image_mset (the \<circ> g) (filter_mset (\<lambda>x. g x \<noteq> None) (mset ys))" for ys
    by (simp add: List.map_filter_def)
  then show ?thesis by simp
qed

lemma loaded_images_mset:
  "mset (loaded_images fs covers_dir albums) = mset (List.map_filter (resolve fs covers_dir albums) albums)"
  unfolding loaded_images_def by (rule mset_map_filter_sort)

lemma loaded_images_nonempty:
  assumes "\<exists>a \<in> set albums. resolve fs covers_dir albums a \<noteq> None"
  shows "loaded_images fs covers_dir albums \<noteq> []"
proof -
  from assms obtain a img where "a \<in> set albums" "resolve fs covers_dir albums a = Some img" by auto
  then have "img \<in> set (loaded_images fs covers_dir albums)"
    unfolding loaded_images_def set_map_filter by auto
  then show ?thesis by auto
qed

lemma final_layout_no_overlap: "no_overlap (final_layout fs covers_dir albums)"
  unfolding final_layout_def using tighten_loop_inv [OF place_all_no_overlap] by blast

lemma final_layout_shape:
  assumes "loaded_images fs covers_dir albums \<noteq> []"
  shows "map shape (final_layout fs covers_dir albums) = map image_shape (loaded_images fs covers_dir albums)"
  unfolding final_layout_def by (simp add: tighten_loop_shape place_all_shape [OF assms])

lemma canvas_pasted_compose: "canvas_pasted (compose output_file ps) = normalize_coords ps"
  by (simp add: compose_def split: prod.splits)

lemma normalize_length: "length (normalize_coords ps) = length ps"
  by (simp add: normalize_coords_def split: prod.splits)

lemma normalize_images: "map fst (normalize_coords ps) = map p_img ps"
  by (simp add: normalize_coords_def split: prod.splits)

lemma normalize_nth:
  assumes "i < length ps"
  shows "normalize_coords ps ! i = (p_img (ps ! i), p_x (ps ! i) - fst (bbox ps), p_y (ps ! i) - fst (snd (bbox ps)))"
  using assms by (simp add: normalize_coords_def split: prod.splits)

lemma shape_nth:
  assumes "map shape ps = map image_shape imgs" and "i < length ps"
  shows "p_img (ps ! i) = imgs ! i \<and> p_w (ps ! i) = img_w (imgs ! i) \<and> p_h (ps ! i) = img_h (imgs ! i)"
proof -
  have len: "length ps = length imgs" using assms(1) by (metis length_map)
  have "map shape ps ! i = map image_shape imgs ! i" using assms(1) by simp
  then have "shape (ps ! i) = image_shape (imgs ! i)" using assms(2) len by simp
  then show ?thesis by (simp add: shape_def image_shape_def)
qed

lemma box_disjoint:
  assumes "0 < aw" "0 < ah" "0 < bw" "0 < bh"
  shows "box (ax, ay, aw, ah) \<inter> box (bx, by, bw, bh) = {} \<longleftrightarrow> \<not> rects_overlap (ax, ay, aw, ah) (bx, by, bw, bh)"
proof
  assume d: "box (ax, ay, aw, ah) \<inter> box (bx, by, bw, bh) = {}"
  show "\<not> rects_overlap (ax, ay, aw, ah) (bx, by, bw, bh)"
  proof
    assume "rects_overlap (ax, ay, aw, ah) (bx, by, bw, bh)"
    then have "(max ax bx, max ay by) \<in> box (ax, ay, aw, ah) \<inter> box (bx, by, bw, bh)"
      using assms by (auto simp: box_def)
    with d show False by blast
  qed
next
  assume "\<not> rects_overlap (ax, ay, aw, ah) (bx, by, bw, bh)"
  then show "box (ax, ay, aw, ah) \<inter> box (bx, by, bw, bh) = {}"
    by (auto simp: box_def)
qed

section \<open>A build of two albums of equal weight\<close>

lemma choose_second:
  "choose_position [square_at 175 0 0] 175 175 = (- 175, 0)"
  by (simp add: choose_position_def scored_candidates_def adjacency_candidates_def candidates_around_def
     bbox_def bbox_candidates_list center_distance_def Let_def square_at_def)

lemma place_second_equal:
  "place_image [square_at 175 0 0] \<lparr>img_px = (), img_w = 175, img_h = 175\<rparr>
     = [square_at 175 0 0, square_at 175 (- 175) 0]"
  by (simp add: place_image_def choose_second) (simp add: square_at_def)

lemma place_two_equal:
  "place_all [\<lparr>img_px = (), img_w = 175, img_h = 175\<rparr>, \<lparr>img_px = (), img_w = 175, img_h = 175\<rparr>]
     = [square_at 175 0 0, square_at 175 (- 175) 0]"
  using place_second_equal by (simp add: place_all_def square_at_def Let_def)

lemma all_files_images:
  "loaded_images all_files ''covers'' [(''A'', 1), (''B'', 1)]
     = [\<lparr>img_px = (), img_w = 175, img_h = 175\<rparr>, \<lparr>img_px = (), img_w = 175, img_h = 175\<rparr>]"
  by (simp add: loaded_images_def resolve_def all_files_def get_cover_path_def item_size_def scale_dimension_def)

lemma all_files_layout:
  "final_layout all_files ''covers'' [(''A'', 1), (''B'', 1)] = [square_at 175 0 0, square_at 175 (- 175) 0]"
  unfolding final_layout_def all_files_images place_two_equal
  by (rule tighten_loop_fixed) (simp add: equal_squares_fixed)

lemma all_files_canvas:
  "snd (build_cluster all_files [(''A'', 1), (''B'', 1)] ''covers'' ''cluster.png'')
     = Saved \<lparr>canvas_file = ''cluster.png'', canvas_width = 350, canvas_height = 175,
               canvas_pasted = [(\<lparr>img_px = (), img_w = 175, img_h = 175\<rparr>, 175, 0),
                                (\<lparr>img_px = (), img_w = 175, img_h = 175\<rparr>, 0, 0)]\<rparr>"
  unfolding build_cluster_outcome all_files_layout
  by (simp add: all_files_images compose_def normalize_coords_def bbox_def square_at_def)

lemma all_files_resolve:
  "resolve all_files ''covers'' [(''A'', 1), (''B'', 1)] (''A'', 1) = Some \<lparr>img_px = (), img_w = 175, img_h = 175\<rparr>"
  "resolve all_files ''covers'' [(''A'', 1), (''B'', 1)] (''B'', 1) = Some \<lparr>img_px = (), img_w = 175, img_h = 175\<rparr>"
  by (simp_all add: resolve_def all_files_def get_cover_path_def item_size_def scale_dimension_def)

section \<open>No resolvable image: the build returns early\<close>

lemma loaded_images_empty:
  assumes "\<forall>a \<in> set albums. resolve fs covers_dir albums a = None"
  shows "loaded_images fs covers_dir albums = []"
proof -
  have "set (loaded_images fs covers_dir albums) = {}"
    using assms unfolding loaded_images_def set_map_filter by auto
  then show ?thesis by simp
qed

lemma excluded_item_reported:
  assumes "a \<in> set albums" and "resolve fs covers_dir albums a = None"
  shows "(''Warning: Cover not found for '' @ fst a) \<in> set (fst (build_cluster fs albums covers_dir output_file))
       \<or> (\<exists>e. (''Error loading '' @ fst a @ '': '' @ e) \<in> set (fst (build_cluster fs albums covers_dir output_file)))"
proof -
  let ?mn = "Min (set (map snd albums))" and ?mx = "Max (set (map snd albums))"
  have ne: "albums \<noteq> []" using assms(1) by auto
  obtain scaled_covers warnings where cc: "collect_covers fs covers_dir ?mn ?mx albums = (scaled_covers, warnings)"
    by (cases "collect_covers fs covers_dir ?mn ?mx albums")
  obtain images errors where li: "load_images fs (sort_key (\<lambda>c. - sc_size c) scaled_covers) = (images, errors)"
    by (cases "load_images fs (sort_key (\<lambda>c. - sc_size c) scaled_covers)")
  from build_cluster_printed [OF ne cc li, of output_file]
  obtain rest where printed: "fst (build_cluster fs albums covers_dir output_file)
      = warnings @ (if scaled_covers = [] then [] else errors) @ rest" by blast
  have w: "warnings = map (\<lambda>a. ''Warning: Cover not found for '' @ fst a)
         (filter (\<lambda>a. get_cover_path fs (fst a) covers_dir = None) albums)"
    using collect_covers_snd [of fs covers_dir ?mn ?mx albums] cc by simp
  have sc: "scaled_covers = List.map_filter (found_cover fs covers_dir ?mn ?mx) albums"
    using collect_covers_fst [of fs covers_dir ?mn ?mx albums] cc by simp
  have er: "errors = List.map_filter (\<lambda>c. case fs_load fs (sc_path c) (sc_size c, sc_size c) of
                               Inl e \<Rightarrow> Some (''Error loading '' @ sc_name c @ '': '' @ e)
                             | Inr px \<Rightarrow> None) (sort_key (\<lambda>c. - sc_size c) scaled_covers)"
    using load_images_snd [of fs "sort_key (\<lambda>c. - sc_size c) scaled_covers"] li by simp
  show ?thesis
  proof (cases "get_cover_path fs (fst a) covers_dir")
    case None
    with assms(1) have "(''Warning: Cover not found for '' @ fst a) \<in> set warnings"
      unfolding w by auto
    then show ?thesis unfolding printed by simp
  next
    case (Some cover_path)
    define c where "c = \<lparr>sc_name = fst a, sc_path = cover_path,
       sc_size = scale_dimension (snd a) ?mn ?mx 50 300, sc_count = snd a\<rparr>"
    have "found_cover fs covers_dir ?mn ?mx a = Some c"
      using Some by (simp add: found_cover_def c_def)
    with assms(1) have cin: "c \<in> set scaled_covers" unfolding sc set_map_filter by blast
    then have nonempty: "scaled_covers \<noteq> []" by auto
    from assms(2) Some obtain e where e: "fs_load fs (sc_path c) (sc_size c, sc_size c) = Inl e"
      by (auto simp: resolve_def item_size_def c_def split: sum.splits)
    have "(''Error loading '' @ fst a @ '': '' @ e) \<in> set errors"
      unfolding er set_map_filter using cin e by (auto simp: c_def intro!: bexI [of _ c])
    then show ?thesis unfolding printed using nonempty by auto
  qed
qed

lemma no_files_build:
  "build_cluster no_files [(''A'', 10), (''B'', 1)] ''covers'' ''cluster.png''
     = ([''Warning: Cover not found for A'', ''Error loading B: cannot identify image file'',
         ''No images could be loaded''], Returned)"
  by (simp add: build_cluster_def no_files_def get_cover_path_def path_join_def isalnum_def scale_dimension_def py_int_def)

lemma no_files_resolve:
  "resolve no_files ''covers'' [(''A'', 10), (''B'', 1)] (''A'', 10) = None"
  "resolve no_files ''covers'' [(''A'', 10), (''B'', 1)] (''B'', 1) = None"
  by (simp_all add: resolve_def no_files_def get_cover_path_def path_join_def isalnum_def item_size_def)

text \<open>
  C9. When no item resolves to an image (every cover is missing or fails to load),
  \<open>build_cluster\<close> returns without saving a canvas, the last line it prints is the message of
  the early return, and for every input item it has printed the warning that the cover was
  not found or the error of the failed load.
\<close>

theorem build_aborts_without_images:
  assumes "\<forall>a \<in> set albums. resolve fs covers_dir albums a = None"
  shows "snd (build_cluster fs albums covers_dir output_file) = Returned
       \<and> last (fst (build_cluster fs albums covers_dir output_file))
            \<in> {''No albums found'', ''No album covers found'', ''No images could be loaded''}
       \<and> (\<forall>a \<in> set albums.
            (''Warning: Cover not found for '' @ fst a) \<in> set (fst (build_cluster fs albums covers_dir output_file))
            \<or> (\<exists>e. (''Error loading '' @ fst a @ '': '' @ e) \<in> set (fst (build_cluster fs albums covers_dir output_file))))"
proof -
  have r: "snd (build_cluster fs albums covers_dir output_file) = Returned"
    by (simp add: build_cluster_outcome loaded_images_empty [OF assms])
  have l: "last (fst (build_cluster fs albums covers_dir output_file))
            \<in> {''No albums found'', ''No album covers found'', ''No images could be loaded''}"
  proof (cases "albums = []")
    case True
    then show ?thesis by (simp add: build_cluster_def)
  next
    case False
    let ?mn = "Min (set (map snd albums))" and ?mx = "Max (set (map snd albums))"
    obtain scaled_covers warnings where cc: "collect_covers fs covers_dir ?mn ?mx albums = (scaled_covers, warnings)"
      by (cases "collect_covers fs covers_dir ?mn ?mx albums")
    obtain images errors where li: "load_images fs (sort_key (\<lambda>c. - sc_size c) scaled_covers) = (images, errors)"
      by (cases "load_images fs (sort_key (\<lambda>c. - sc_size c) scaled_covers)")
    from build_cluster_printed [OF False cc li, of output_file] r
    obtain rest where "fst (build_cluster fs albums covers_dir output_file)
        = warnings @ (if scaled_covers = [] then [] else errors) @ rest"
      and "rest = [''No album covers found''] \<or> rest = [''No images could be loaded'']" by blast
    then show ?thesis by auto
  qed
  from r l excluded_item_reported assms show ?thesis by blast
qed

theorem build_aborts_without_images_witness:
  "resolve no_files ''covers'' [(''A'', 10), (''B'', 1)] (''A'', 10) = None
   \<and> resolve no_files ''covers'' [(''A'', 10), (''B'', 1)] (''B'', 1) = None
   \<and> snd (build_cluster no_files [(''A'', 10), (''B'', 1)] ''covers'' ''cluster.png'') = Returned
   \<and> fst (build_cluster no_files [(''A'', 10), (''B'', 1)] ''covers'' ''cluster.png'')
       = [''Warning: Cover not found for A'', ''Error loading B: cannot identify image file'',
          ''No images could be loaded'']"
  using build_aborts_without_images [of "[(''A'', 10), (''B'', 1)]" no_files "''covers''" "''cluster.png''"]
  by (simp add: no_files_resolve no_files_build)

section \<open>The final layout has no overlap\<close>

text \<open>
  C1. When at least one item resolves to an image, \<open>build_cluster\<close> saves a canvas on which
  no two pasted rectangles overlap: \<open>rects_overlap\<close> is false for every two different
  entries, and the half-open boxes they cover are disjoint (rectangles that only share an
  edge do not overlap). The pasted images are the images of the resolvable items, each
  exactly once.
\<close>

theorem final_canvas_has_no_overlap:
  assumes "\<exists>a \<in> set albums. resolve fs covers_dir albums a \<noteq> None"
  shows "\<exists>canvas. snd (build_cluster fs albums covers_dir output_file) = Saved canvas
       \<and> (\<forall>i j. i < length (canvas_pasted canvas) \<and> j < length (canvas_pasted canvas) \<and> i \<noteq> j \<longrightarrow>
             \<not> rects_overlap (pasted_rect (canvas_pasted canvas ! i)) (pasted_rect (canvas_pasted canvas ! j))
             \<and> box (pasted_rect (canvas_pasted canvas ! i)) \<inter> box (pasted_rect (canvas_pasted canvas ! j)) = {})
       \<and> mset (map fst (canvas_pasted canvas)) = mset (List.map_filter (resolve fs covers_dir albums) albums)"
proof -
  let ?imgs = "loaded_images fs covers_dir albums"
  let ?ps = "final_layout fs covers_dir albums"
  let ?canvas = "compose output_file ?ps"
  have ne: "?imgs \<noteq> []" using assms by (rule loaded_images_nonempty)
  have saved: "snd (build_cluster fs albums covers_dir output_file) = Saved ?canvas"
    using ne by (simp add: build_cluster_outcome)
  have sh: "map shape ?ps = map image_shape ?imgs" using ne by (rule final_layout_shape)
  have len: "length ?ps = length ?imgs" using sh by (metis length_map)
  have pasted: "canvas_pasted ?canvas = normalize_coords ?ps" by (rule canvas_pasted_compose)
  have rect: "pasted_rect (normalize_coords ?ps ! i)
      = (p_x (?ps ! i) - fst (bbox ?ps), p_y (?ps ! i) - fst (snd (bbox ?ps)), p_w (?ps ! i), p_h (?ps ! i))"
    if "i < length ?ps" for i
    using shape_nth [OF sh that] by (simp add: normalize_nth [OF that] pasted_rect_def)
  have pos: "0 < p_w (?ps ! i) \<and> 0 < p_h (?ps ! i)" if "i < length ?ps" for i
  proof -
    have "?imgs ! i \<in> set ?imgs" using that len by simp
    from loaded_images_item [OF this] item_size_range [of _ albums] shape_nth [OF sh that]
    show ?thesis by force
  qed
  have free: "\<not> rects_overlap (pasted_rect (normalize_coords ?ps ! i)) (pasted_rect (normalize_coords ?ps ! j))
            \<and> box (pasted_rect (normalize_coords ?ps ! i)) \<inter> box (pasted_rect (normalize_coords ?ps ! j)) = {}"
    if "i < length ?ps" "j < length ?ps" "i \<noteq> j" for i j
  proof -
    have "\<not> rects_overlap (rect_of (?ps ! i)) (rect_of (?ps ! j))"
      using final_layout_no_overlap [of fs covers_dir albums] that by (simp add: no_overlap_iff)
    then have no: "\<not> rects_overlap (pasted_rect (normalize_coords ?ps ! i)) (pasted_rect (normalize_coords ?ps ! j))"
      unfolding rect [OF that(1)] rect [OF that(2)] rects_overlap_shift by (simp add: rect_of_def)
    then show ?thesis
      unfolding rect [OF that(1)] rect [OF that(2)]
      using box_disjoint pos [OF that(1)] pos [OF that(2)] by blast
  qed
  have imgs: "map fst (normalize_coords ?ps) = ?imgs"
  proof -
    have "map (fst \<circ> shape) ?ps = map (fst \<circ> image_shape) ?imgs" using sh by (metis map_map)
    then show ?thesis by (simp add: normalize_images shape_def image_shape_def comp_def)
  qed
  have ms: "mset (map fst (canvas_pasted ?canvas)) = mset (List.map_filter (resolve fs covers_dir albums) albums)"
    unfolding pasted imgs by (rule loaded_images_mset)
  have all: "\<forall>i j. i < length (canvas_pasted ?canvas) \<and> j < length (canvas_pasted ?canvas) \<and> i \<noteq> j \<longrightarrow>
             \<not> rects_overlap (pasted_rect (canvas_pasted ?canvas ! i)) (pasted_rect (canvas_pasted ?canvas ! j))
             \<and> box (pasted_rect (canvas_pasted ?canvas ! i)) \<inter> box (pasted_rect (canvas_pasted ?canvas ! j)) = {}"
    unfolding pasted normalize_length using free by blast
  from saved all ms show ?thesis by blast
qed

theorem final_canvas_has_no_overlap_witness:
  "resolve all_files ''covers'' [(''A'', 1), (''B'', 1)] (''A'', 1) \<noteq> None
   \<and> snd (build_cluster all_files [(''A'', 1), (''B'', 1)] ''covers'' ''cluster.png'')
     = Saved \<lparr>canvas_file = ''cluster.png'', canvas_width = 350, canvas_height = 175,
               canvas_pasted = [(\<lparr>img_px = (), img_w = 175, img_h = 175\<rparr>, 175, 0),
                                (\<lparr>img_px = (), img_w = 175, img_h = 175\<rparr>, 0, 0)]\<rparr>
   \<and> \<not> rects_overlap (175, 0, 175, 175) (0, 0, 175, 175)
   \<and> box (175, 0, 175, 175) \<inter> box (0, 0, 175, 175) = {}"
  using final_canvas_has_no_overlap [of "[(''A'', 1), (''B'', 1)]" all_files "''covers''" "''cluster.png''"]
  by (simp add: all_files_resolve all_files_canvas pasted_rect_def nth_Cons' all_conj_distrib)
     (auto simp: box_def)

section \<open>The first entry of the layout\<close>







section \<open>What a placed rectangle keeps\<close>

lemma shape_eq_nth:
  assumes "map shape ps' = map shape ps" and "i < length ps"
  shows "p_img (ps' ! i) = p_img (ps ! i) \<and> p_w (ps' ! i) = p_w (ps ! i) \<and> p_h (ps' ! i) = p_h (ps ! i)"
proof -
  have len: "length ps' = length ps" using assms(1) by (metis length_map)
  have "map shape ps' ! i = map shape ps ! i" using assms(1) by simp
  then have "shape (ps' ! i) = shape (ps ! i)" using assms(2) len by simp
  then show ?thesis by (simp add: shape_def)
qed

lemma tighten_placements_frame:
  assumes "tighten_placements ps n = Inr ps'"
  shows "map shape ps' = map shape ps"
proof -
  from assms have "ps' = tighten_loop n ps"
    by (simp add: tighten_placements_def split: if_splits)
  then show ?thesis by (simp add: tighten_loop_shape)
qed

text \<open>
  C10. The Placer appends one entry for an image and leaves the entries before it as they
  are; the new entry carries the image and the image's width and height. The Tightener
  returns a list of the same length in which every entry has the image, the width and the
  height it had. In a build, the entry created for the \<open>i\<close>-th loaded image is, when created
  and after the Tightener, that image of a resolvable item, and its width and height are the
  item's scaled dimension.
\<close>

theorem placed_rect_frame:
  "(\<exists>q. place_image ps img = ps @ [q] \<and> p_img q = img \<and> p_w q = img_w img \<and> p_h q = img_h img)
   \<and> (tighten_placements ps n = Inr ps' \<longrightarrow>
        length ps' = length ps
        \<and> (\<forall>i < length ps. p_img (ps' ! i) = p_img (ps ! i) \<and> p_w (ps' ! i) = p_w (ps ! i) \<and> p_h (ps' ! i) = p_h (ps ! i)))
   \<and> (loaded_images fs covers_dir albums \<noteq> [] \<longrightarrow>
        length (place_all (loaded_images fs covers_dir albums)) = length (loaded_images fs covers_dir albums)
        \<and> length (final_layout fs covers_dir albums) = length (loaded_images fs covers_dir albums)
        \<and> (\<forall>i < length (loaded_images fs covers_dir albums).
              \<exists>a \<in> set albums.
                resolve fs covers_dir albums a = Some (loaded_images fs covers_dir albums ! i)
                \<and> shape (place_all (loaded_images fs covers_dir albums) ! i)
                    = (loaded_images fs covers_dir albums ! i, item_size albums a, item_size albums a)
                \<and> shape (final_layout fs covers_dir albums ! i)
                    = (loaded_images fs covers_dir albums ! i, item_size albums a, item_size albums a)))"
proof (intro conjI impI)
  show "\<exists>q. place_image ps img = ps @ [q] \<and> p_img q = img \<and> p_w q = img_w img \<and> p_h q = img_h img"
    by (simp add: place_image_eq)
next
  assume t: "tighten_placements ps n = Inr ps'"
  from tighten_placements_frame [OF t] show "length ps' = length ps" by (metis length_map)
next
  assume t: "tighten_placements ps n = Inr ps'"
  from shape_eq_nth [OF tighten_placements_frame [OF t]]
  show "\<forall>i < length ps. p_img (ps' ! i) = p_img (ps ! i) \<and> p_w (ps' ! i) = p_w (ps ! i) \<and> p_h (ps' ! i) = p_h (ps ! i)"
    by blast
next
  let ?imgs = "loaded_images fs covers_dir albums"
  assume ne: "?imgs \<noteq> []"
  show "length (place_all ?imgs) = length ?imgs" using ne by (rule place_all_length)
next
  let ?imgs = "loaded_images fs covers_dir albums"
  assume ne: "?imgs \<noteq> []"
  from final_layout_shape [OF ne] show "length (final_layout fs covers_dir albums) = length ?imgs"
    by (metis length_map)
next
  let ?imgs = "loaded_images fs covers_dir albums"
  assume ne: "?imgs \<noteq> []"
  have sh1: "map shape (place_all ?imgs) = map image_shape ?imgs" using ne by (rule place_all_shape)
  have sh2: "map shape (final_layout fs covers_dir albums) = map image_shape ?imgs"
    using ne by (rule final_layout_shape)
  have l1: "length (place_all ?imgs) = length ?imgs" using sh1 by (metis length_map)
  have l2: "length (final_layout fs covers_dir albums) = length ?imgs" using sh2 by (metis length_map)
  show "\<forall>i < length ?imgs. \<exists>a \<in> set albums.
      resolve fs covers_dir albums a = Some (?imgs ! i)
      \<and> shape (place_all ?imgs ! i) = (?imgs ! i, item_size albums a, item_size albums a)
      \<and> shape (final_layout fs covers_dir albums ! i) = (?imgs ! i, item_size albums a, item_size albums a)"
  proof (intro allI impI)
    fix i assume i: "i < length ?imgs"
    then have "?imgs ! i \<in> set ?imgs" by simp
    from loaded_images_item [OF this] obtain a where a: "a \<in> set albums"
      "resolve fs covers_dir albums a = Some (?imgs ! i)"
      "img_w (?imgs ! i) = item_size albums a" "img_h (?imgs ! i) = item_size albums a" by blast
    have "shape (place_all ?imgs ! i) = (?imgs ! i, item_size albums a, item_size albums a)"
      using shape_nth [OF sh1, of i] i l1 a(3,4) by (simp add: shape_def)
    moreover have "shape (final_layout fs covers_dir albums ! i) = (?imgs ! i, item_size albums a, item_size albums a)"
      using shape_nth [OF sh2, of i] i l2 a(3,4) by (simp add: shape_def)
    ultimately show "\<exists>a \<in> set albums.
      resolve fs covers_dir albums a = Some (?imgs ! i)
      \<and> shape (place_all ?imgs ! i) = (?imgs ! i, item_size albums a, item_size albums a)
      \<and> shape (final_layout fs covers_dir albums ! i) = (?imgs ! i, item_size albums a, item_size albums a)"
      using a(1,2) by blast
  qed
qed

lemma far_run: "tighten_placements [square_at 50 0 0, square_at 50 2000 0] 100 = Inr [square_at 50 300 0, square_at 50 1700 0]"
  using far_loop [of 0 100 2000] by (simp add: tighten_placements_def)

theorem placed_rect_frame_witness:
  "tighten_placements [square_at 50 0 0, square_at 50 2000 0] 100 = Inr [square_at 50 300 0, square_at 50 1700 0]
   \<and> loaded_images all_files ''covers'' [(''A'', 1), (''B'', 1)] \<noteq> []
   \<and> place_image [square_at 175 0 0] \<lparr>img_px = (), img_w = 175, img_h = 175\<rparr>
       = [square_at 175 0 0] @ [square_at 175 (- 175) 0]
   \<and> map shape [square_at 50 300 0, square_at 50 1700 0] = map shape [square_at 50 0 0, square_at 50 2000 0]
   \<and> map shape (final_layout all_files ''covers'' [(''A'', 1), (''B'', 1)])
       = map image_shape (loaded_images all_files ''covers'' [(''A'', 1), (''B'', 1)])"
proof -
  have goal: ?thesis
    by (simp add: far_run all_files_images all_files_layout place_second_equal)
       (simp add: square_at_def shape_def image_shape_def)
  from placed_rect_frame [of "[square_at 50 0 0, square_at 50 2000 0]" "\<lparr>img_px = (), img_w = 175, img_h = 175\<rparr>"
      100 "[square_at 50 300 0, square_at 50 1700 0]" all_files "''covers''" "[(''A'', 1), (''B'', 1)]"]
  show ?thesis by - (rule goal)
qed

section \<open>Adjacency candidates\<close>

lemma adjacency_candidates_length:
  "length (adjacency_candidates placements iw ih) = 10 * length placements"
  by (induction placements) (simp_all add: adjacency_candidates_def candidates_around_def)

text \<open>
  C5 (amended). For every placed rectangle the Placer generates ten adjacency candidates,
  not eight: three with the new rectangle flush against the right side (top-aligned,
  bottom-aligned, centred), three flush against the left side (the same alignments), two
  flush against the bottom side and two flush against the top side (left-aligned and
  centred). For rectangles of positive size these are exactly the candidates on each side.
\<close>

theorem candidates_around_ten:
  assumes "0 < pw" and "0 < ph" and "0 < iw" and "0 < ih"
  shows "length (candidates_around px py pw ph iw ih) = 10
       \<and> filter (\<lambda>c. fst c = px + pw) (candidates_around px py pw ph iw ih)
           = [(px + pw, py), (px + pw, py + ph - ih), (px + pw, py + (ph - ih) div 2)]
       \<and> filter (\<lambda>c. fst c + iw = px) (candidates_around px py pw ph iw ih)
           = [(px - iw, py), (px - iw, py + ph - ih), (px - iw, py + (ph - ih) div 2)]
       \<and> filter (\<lambda>c. snd c = py + ph) (candidates_around px py pw ph iw ih)
           = [(px, py + ph), (px + (pw - iw) div 2, py + ph)]
       \<and> filter (\<lambda>c. snd c + ih = py) (candidates_around px py pw ph iw ih)
           = [(px, py - ih), (px + (pw - iw) div 2, py - ih)]
       \<and> length (adjacency_candidates placements iw ih) = 10 * length placements"
proof -
  have a: "(pw - iw) div 2 \<noteq> pw" "(pw - iw) div 2 + iw \<noteq> 0"
    using assms by presburger+
  have b: "(ph - ih) div 2 \<noteq> ph" "(ph - ih) div 2 + ih \<noteq> 0"
    using assms by presburger+
  show ?thesis
    using assms a b
    by (simp add: candidates_around_def adjacency_candidates_length)
qed

theorem candidates_around_ten_witness:
  "(0::int) < 300 \<and> (0::int) < 50
   \<and> candidates_around 0 0 300 300 50 50
       = [(300, 0), (300, 250), (300, 125), (- 50, 0), (- 50, 250), (- 50, 125),
          (0, 300), (125, 300), (0, - 50), (125, - 50)]
   \<and> filter (\<lambda>c. fst c = 0 + 300) (candidates_around 0 0 300 300 50 50) = [(300, 0), (300, 250), (300, 125)]
   \<and> filter (\<lambda>c. snd c = 0 + 300) (candidates_around 0 0 300 300 50 50) = [(0, 300), (125, 300)]"
  using candidates_around_ten [of 300 300 50 50 0 0 "[]"]
  by (simp add: candidates_around_def)

text \<open>C5 as stated fails: around any rectangle there are ten candidates.\<close>

theorem eight_candidates_counterexample:
  "length (candidates_around 0 0 300 300 50 50) \<noteq> 8
   \<and> distinct (candidates_around 0 0 300 300 50 50)"
  by (simp add: candidates_around_def)

section \<open>The spiral fallback and the last resort\<close>

lemma find_append_case:
  "List.find P (xs @ ys) = (case List.find P xs of None \<Rightarrow> List.find P ys | Some x \<Rightarrow> Some x)"
  by (induction xs) auto

lemma try_angles_find:
  "try_angles ps center_x center_y iw ih r angles
     = List.find (\<lambda>c. \<not> overlaps_any ps (fst c, snd c, iw, ih)) (map (spiral_point center_x center_y r) angles)"
  by (induction angles) (auto split: prod.splits)

lemma spiral_step_pos: "10 \<le> spiral_step iw ih"
  by (simp add: spiral_step_def)

lemma spiral_loop_find:
  fixes M :: int
  defines "N \<equiv> nat M + 1"
  shows "spiral_loop ps center_x center_y iw ih M (int j * spiral_step iw ih)
     = List.find (\<lambda>c. \<not> overlaps_any ps (fst c, snd c, iw, ih))
         (concat (map (\<lambda>r. map (spiral_point center_x center_y r) spiral_angles)
            (filter (\<lambda>r. r < M) (map (\<lambda>k. int k * spiral_step iw ih) [j ..< N]))))"
proof (induction "N - j" arbitrary: j)
  case 0
  then have "N \<le> j" by simp
  then have "M \<le> int j" by (simp add: N_def)
  also have "int j \<le> int j * spiral_step iw ih"
    using spiral_step_pos [of iw ih] by (simp add: mult_le_cancel_left1)
  finally have "\<not> int j * spiral_step iw ih < M" by simp
  then show ?case using \<open>N \<le> j\<close>
    by (simp add: spiral_loop.simps [of ps center_x center_y iw ih M "int j * spiral_step iw ih"])
next
  case (Suc n)
  then have jN: "j < N" and n: "n = N - Suc j" by simp_all
  have up: "[j ..< N] = j # [Suc j ..< N]" using jN by (simp add: upt_conv_Cons)
  have next_r: "int j * spiral_step iw ih + spiral_step iw ih = int (Suc j) * spiral_step iw ih"
    by (simp add: algebra_simps)
  show ?case
  proof (cases "int j * spiral_step iw ih < M")
    case True
    show ?thesis
      using True Suc.hyps(1) [OF n]
      unfolding up spiral_loop.simps [of ps center_x center_y iw ih M "int j * spiral_step iw ih"] next_r
      by (simp add: find_append_case try_angles_find split: option.splits)
  next
    case False
    have "\<not> int k * spiral_step iw ih < M" if "j \<le> k" for k
    proof -
      have "int j * spiral_step iw ih \<le> int k * spiral_step iw ih"
        using that spiral_step_pos [of iw ih] by (simp add: mult_right_mono)
      with False show ?thesis by simp
    qed
    then have "filter (\<lambda>r. r < M) (map (\<lambda>k. int k * spiral_step iw ih) [j ..< N]) = []"
      by (simp add: filter_empty_conv)
    with False show ?thesis
      by (simp add: spiral_loop.simps [of ps center_x center_y iw ih M "int j * spiral_step iw ih"])
  qed
qed

lemma spiral_search_find:
  "spiral_search ps bb iw ih
     = List.find (\<lambda>c. \<not> overlaps_any ps (fst c, snd c, iw, ih)) (spiral_scan bb iw ih)"
proof -
  obtain min_x min_y max_x max_y where bb: "bb = (min_x, min_y, max_x, max_y)" by (cases bb)
  show ?thesis
    using spiral_loop_find [of ps "real_of_int (min_x + max_x) / 2" "real_of_int (min_y + max_y) / 2"
        iw ih "spiral_max_radius bb iw ih" 1]
    by (simp add: spiral_search_def spiral_scan_def spiral_radii_def bb Let_def)
qed






lemma choose_position_fallback:
  assumes "scored_candidates ps iw ih = []"
  shows "choose_position ps iw ih
     = (case spiral_search ps (bbox ps) iw ih of Some pos \<Rightarrow> pos | None \<Rightarrow> last_resort (bbox ps))"
  using assms by (simp add: choose_position_def)





lemma set_dedupe: "set (dedupe seen cs) = set cs - seen"
  by (induction cs arbitrary: seen) auto

lemma score_candidates_nonempty:
  assumes "(cx, cy) \<in> set cs" and "\<not> fst (scan_placed cx cy iw ih False ps)"
  shows "score_candidates ps iw ih cs \<noteq> []"
  using assms by (induction cs) (auto split: prod.splits)

text \<open>
  The candidate \<open>(max_x, min_y)\<close> at the boundary of the bounding box overlaps no placed
  rectangle, so the list of scored candidates is never empty: the Placer always takes the
  best-ranked candidate, and never reaches the spiral search or the last resort.
\<close>

lemma adjacency_never_fails:
  assumes "ps \<noteq> []"
  shows "scored_candidates ps iw ih \<noteq> []
       \<and> choose_position ps iw ih
           = (fst (snd (snd (hd (sort (scored_candidates ps iw ih))))),
              fst (snd (snd (snd (hd (sort (scored_candidates ps iw ih)))))))"
proof -
  obtain min_x min_y max_x max_y where bb: "bbox ps = (min_x, min_y, max_x, max_y)" by (cases "bbox ps")
  have mx: "max_x = Max (set (map (\<lambda>p. p_x p + p_w p) ps))" using bb by (simp add: bbox_def)
  have "\<not> rects_overlap (max_x, min_y, iw, ih) (rect_of p)" if "p \<in> set ps" for p
  proof -
    have "p_x p + p_w p \<le> max_x" unfolding mx using that by (intro Max_ge) auto
    then show ?thesis by (simp add: rect_of_def)
  qed
  then have free: "\<not> fst (scan_placed max_x min_y iw ih False ps)"
    unfolding scan_placed_overlap by blast
  have "(max_x, min_y) \<in> set (bbox_candidates (bbox ps) iw ih)"
    unfolding bb bbox_candidates_list by simp
  then have "(max_x, min_y) \<in> set (dedupe {} (adjacency_candidates ps iw ih @ bbox_candidates (bbox ps) iw ih))"
    unfolding set_dedupe by simp
  from score_candidates_nonempty [OF this free]
  have ne: "scored_candidates ps iw ih \<noteq> []" by (simp add: scored_candidates_def)
  then show ?thesis by (simp add: choose_position_def split: prod.splits)
qed

section \<open>The layout does not depend on the pixel data\<close>

lemma erase_sel [simp]:
  "p_x (erase p) = p_x p" "p_y (erase p) = p_y p" "p_w (erase p) = p_w p" "p_h (erase p) = p_h p"
  "p_img (erase p) = erase_image (p_img p)"
  "img_w (erase_image i) = img_w i" "img_h (erase_image i) = img_h i"
  by (simp_all add: erase_def erase_image_def)

lemma erase_update [simp]:
  "erase (p\<lparr>p_x := x\<rparr>) = (erase p)\<lparr>p_x := x\<rparr>" "erase (p\<lparr>p_y := y\<rparr>) = (erase p)\<lparr>p_y := y\<rparr>"
  by (simp_all add: erase_def)

lemma erase_adjacency: "adjacency_candidates (map erase ps) iw ih = adjacency_candidates ps iw ih"
  by (simp add: adjacency_candidates_def comp_def)

lemma erase_bbox: "bbox (map erase ps) = bbox ps"
  by (simp add: bbox_def comp_def)

lemma erase_scan_placed: "scan_placed cx cy iw ih t (map erase ps) = scan_placed cx cy iw ih t ps"
  by (induction ps arbitrary: t) simp_all

lemma erase_score_candidates: "score_candidates (map erase ps) iw ih cs = score_candidates ps iw ih cs"
  by (induction cs) (auto simp: erase_scan_placed)

lemma erase_scored_candidates: "scored_candidates (map erase ps) iw ih = scored_candidates ps iw ih"
  by (simp add: scored_candidates_def erase_score_candidates erase_adjacency erase_bbox)

lemma erase_overlaps_any: "overlaps_any (map erase ps) r = overlaps_any ps r"
  by (simp add: overlaps_any_def list_ex_iff)

lemma erase_spiral_search: "spiral_search (map erase ps) bb iw ih = spiral_search ps bb iw ih"
  by (simp add: spiral_search_find erase_overlaps_any)

lemma erase_choose_position: "choose_position (map erase ps) iw ih = choose_position ps iw ih"
  unfolding choose_position_def erase_scored_candidates erase_spiral_search erase_bbox ..

lemma erase_place_image: "map erase (place_image ps img) = place_image (map erase ps) (erase_image img)"
  by (simp add: place_image_eq erase_choose_position)

lemma erase_fold_place:
  "map erase (fold (\<lambda>img placements. place_image placements img) imgs ps)
     = fold (\<lambda>img placements. place_image placements img) (map erase_image imgs) (map erase ps)"
  by (induction imgs arbitrary: ps) (simp_all add: erase_place_image)

lemma erase_place_all:
  assumes "imgs \<noteq> []"
  shows "map erase (place_all imgs) = place_all (map erase_image imgs)"
proof -
  from assms obtain i rest where "imgs = i # rest" by (cases imgs) auto
  then show ?thesis by (simp add: place_all_def erase_fold_place) (simp add: erase_def)
qed

lemma erase_enumerate: "enumerate n (map erase ps) = map (\<lambda>(j, p). (j, erase p)) (enumerate n ps)"
  by (induction ps arbitrary: n) simp_all

lemma erase_can_place_at:
  assumes "i < length ps"
  shows "can_place_at (map erase ps) i x y = can_place_at ps i x y"
  using assms by (simp add: can_place_at_def erase_enumerate list_all_iff split_beta)

lemma erase_nudge:
  assumes "i < length ps"
  shows "nudge center_x center_y i pw ph k px py (map erase ps, m)
     = (map erase (fst (nudge center_x center_y i pw ph k px py (ps, m))),
        snd (nudge center_x center_y i pw ph k px py (ps, m)))"
  using assms
proof (induction k arbitrary: ps px py m)
  case 0
  then show ?case by simp
next
  case (Suc k)
  define step_x where "step_x = np_sign (center_x - (real_of_int px + real_of_int pw / 2))"
  define step_y where "step_y = np_sign (center_y - (real_of_int py + real_of_int ph / 2))"
  define try_x where "try_x = (step_x \<noteq> 0 \<and> can_place_at ps i (px + step_x) py)"
  define px1 where "px1 = (if try_x then px + step_x else px)"
  define ps1 where "ps1 = (if try_x then ps[i := (ps ! i)\<lparr>p_x := px1\<rparr>] else ps)"
  define try_y where "try_y = (step_y \<noteq> 0 \<and> can_place_at ps1 i px1 (py + step_y))"
  define py1 where "py1 = (if try_y then py + step_y else py)"
  define ps2 where "ps2 = (if try_y then ps1[i := (ps1 ! i)\<lparr>p_y := py1\<rparr>] else ps1)"
  have unfold: "nudge center_x center_y i pw ph (Suc k) px py (ps, m) =
      (if \<not> (try_x \<or> try_y) then (ps2, m) else nudge center_x center_y i pw ph k px1 py1 (ps2, True))"
    unfolding nudge_Suc Let_def ps2_def py1_def try_y_def ps1_def px1_def try_x_def step_x_def step_y_def
    by (rule refl)
  have len1: "i < length ps1" using Suc.prems by (simp add: ps1_def)
  have len2: "i < length ps2" using len1 by (simp add: ps2_def)
  have tx: "(step_x \<noteq> 0 \<and> can_place_at (map erase ps) i (px + step_x) py) = try_x"
    by (simp add: try_x_def erase_can_place_at [OF Suc.prems])
  have e1: "(if try_x then (map erase ps)[i := (map erase ps ! i)\<lparr>p_x := px1\<rparr>] else map erase ps) = map erase ps1"
    using Suc.prems by (simp add: ps1_def map_update)
  have ty: "(step_y \<noteq> 0 \<and> can_place_at (map erase ps1) i px1 (py + step_y)) = try_y"
    by (simp add: try_y_def erase_can_place_at [OF len1])
  have e2: "(if try_y then (map erase ps1)[i := (map erase ps1 ! i)\<lparr>p_y := py1\<rparr>] else map erase ps1) = map erase ps2"
    using len1 by (simp add: ps2_def map_update)
  have unfold': "nudge center_x center_y i pw ph (Suc k) px py (map erase ps, m) =
      (if \<not> (try_x \<or> try_y) then (map erase ps2, m)
       else nudge center_x center_y i pw ph k px1 py1 (map erase ps2, True))"
    unfolding nudge_Suc Let_def step_x_def [symmetric] step_y_def [symmetric] tx px1_def [symmetric] e1 ty
      py1_def [symmetric] e2
    by (rule refl)
  show ?case unfolding unfold unfold' using Suc.IH [OF len2, of px1 py1 True] by simp
qed

lemma erase_nudge_rect:
  assumes "i < length ps"
  shows "nudge_rect center_x center_y i (map erase ps, m)
     = (map erase (fst (nudge_rect center_x center_y i (ps, m))), snd (nudge_rect center_x center_y i (ps, m)))"
  using assms erase_nudge [OF assms] by (simp add: nudge_rect_def Let_def)

lemma nudge_rect_length: "length (fst (nudge_rect center_x center_y i (ps, m))) = length ps"
  using nudge_rect_shape [of center_x center_y i ps m] by (metis length_map)

lemma erase_fold_nudge:
  assumes "\<forall>e \<in> set order. snd e < length ps"
  shows "fold (\<lambda>(d, i). nudge_rect center_x center_y i) order (map erase ps, m)
     = (map erase (fst (fold (\<lambda>(d, i). nudge_rect center_x center_y i) order (ps, m))),
        snd (fold (\<lambda>(d, i). nudge_rect center_x center_y i) order (ps, m)))"
  using assms
proof (induction order arbitrary: ps m)
  case Nil
  then show ?case by simp
next
  case (Cons e order)
  obtain d i where e: "e = (d, i)" by (cases e)
  obtain ps' m' where st: "nudge_rect center_x center_y i (ps, m) = (ps', m')"
    by (cases "nudge_rect center_x center_y i (ps, m)")
  have i: "i < length ps" using Cons.prems e by simp
  have "length ps' = length ps" using nudge_rect_length [of center_x center_y i ps m] st by simp
  then have idx: "\<forall>e \<in> set order. snd e < length ps'" using Cons.prems by simp
  show ?case using Cons.IH [OF idx, of m'] erase_nudge_rect [OF i, of center_x center_y m]
    by (simp add: e st)
qed

lemma tighten_pass_alt:
  "tighten_pass ps =
     fold (\<lambda>(d, i). nudge_rect (fst (centroid ps)) (snd (centroid ps)) i)
       (rev (sort (map (\<lambda>(i, p). (centroid_distance (centroid ps) p, i)) (enumerate 0 ps))))
       (ps, False)"
  by (simp add: tighten_pass_def Let_def centroid_def centroid_distance_def)

lemma erase_centroid: "centroid (map erase ps) = centroid ps"
  by (simp add: centroid_def comp_def)

lemma erase_centroid_distance: "centroid_distance c (erase p) = centroid_distance c p"
  by (simp add: centroid_distance_def)

lemma erase_tighten_pass:
  "tighten_pass (map erase ps) = (map erase (fst (tighten_pass ps)), snd (tighten_pass ps))"
proof -
  have "map (\<lambda>(i, p). (centroid_distance (centroid ps) p, i)) (enumerate 0 (map erase ps))
      = map (\<lambda>(i, p). (centroid_distance (centroid ps) p, i)) (enumerate 0 ps)"
    by (simp add: erase_enumerate split_beta erase_centroid_distance)
  then show ?thesis
    unfolding tighten_pass_alt erase_centroid
    by (simp only: erase_fold_nudge [OF tighten_order_indices])
qed

lemma erase_tighten_loop: "tighten_loop n (map erase ps) = map erase (tighten_loop n ps)"
proof (induction n arbitrary: ps)
  case 0
  then show ?case by simp
next
  case (Suc n)
  obtain ps' m where st: "tighten_pass ps = (ps', m)" by (cases "tighten_pass ps")
  show ?case using Suc.IH [of ps'] by (simp add: erase_tighten_pass st)
qed

lemma erase_pasted_rects:
  assumes "map shape ps = map image_shape imgs"
  shows "map pasted_rect (normalize_coords ps) = map pasted_rect (normalize_coords (map erase ps))"
proof -
  have "p_w p = img_w (p_img p) \<and> p_h p = img_h (p_img p)" if "p \<in> set ps" for p
  proof -
    from that obtain i where i: "i < length ps" "p = ps ! i" by (metis in_set_conv_nth)
    from shape_nth [OF assms i(1)] i(2) show ?thesis by simp
  qed
  then show ?thesis
    by (auto simp: normalize_coords_def erase_bbox pasted_rect_def split: prod.splits)
qed

lemma erase_loaded_images:
  "map erase_image (loaded_images fs covers_dir albums)
     = map (\<lambda>a. \<lparr>img_px = (), img_w = item_size albums a, img_h = item_size albums a\<rparr>)
         (filter (\<lambda>a. resolve fs covers_dir albums a \<noteq> None) (sort_key (\<lambda>a. - item_size albums a) albums))"
proof -
  have "erase_image (the (resolve fs covers_dir albums a))
      = \<lparr>img_px = (), img_w = item_size albums a, img_h = item_size albums a\<rparr>"
    if "resolve fs covers_dir albums a \<noteq> None" for a
    using that by (auto simp: resolve_def erase_image_def split: option.splits sum.splits)
  then show ?thesis
    unfolding loaded_images_def List.map_filter_def by simp
qed

lemma layout_of_build:
  "layout_of (snd (build_cluster fs albums covers_dir output_file))
     = layout_for (map erase_image (loaded_images fs covers_dir albums))"
proof (cases "loaded_images fs covers_dir albums = []")
  case True
  then show ?thesis by (simp add: build_cluster_outcome layout_of_def layout_for_def)
next
  case False
  let ?L = "final_layout fs covers_dir albums"
  have e: "tighten_loop 100 (place_all (map erase_image (loaded_images fs covers_dir albums))) = map erase ?L"
    by (simp only: final_layout_def erase_place_all [OF False, symmetric] erase_tighten_loop)
  have r: "map pasted_rect (normalize_coords ?L) = map pasted_rect (normalize_coords (map erase ?L))"
    using final_layout_shape [OF False] by (rule erase_pasted_rects)
  show ?thesis
    using False unfolding layout_for_def e Let_def
    by (simp add: build_cluster_outcome layout_of_def canvas_pasted_compose r erase_bbox)
       (simp add: compose_def split: prod.splits)
qed

text \<open>
  C7. The layout that \<open>build_cluster\<close> saves (the rectangles in order, and the size of the
  canvas) is a function of the list of albums and of which items resolve to an image: two
  runs on the same albums, in the same order, with file systems in which the same items
  resolve, save the same layout, whatever the pixel data of the images, the directory and
  the name of the output file are.
\<close>

theorem build_deterministic:
  fixes fs1 :: "'a filesystem" and fs2 :: "'b filesystem"
  assumes "\<forall>a \<in> set albums. (resolve fs1 dir1 albums a = None) = (resolve fs2 dir2 albums a = None)"
  shows "layout_of (snd (build_cluster fs1 albums dir1 file1)) = layout_of (snd (build_cluster fs2 albums dir2 file2))"
proof -
  have "filter (\<lambda>a. resolve fs1 dir1 albums a \<noteq> None) (sort_key (\<lambda>a. - item_size albums a) albums)
      = filter (\<lambda>a. resolve fs2 dir2 albums a \<noteq> None) (sort_key (\<lambda>a. - item_size albums a) albums)"
    using assms by (intro filter_cong) auto
  then have "map erase_image (loaded_images fs1 dir1 albums) = map erase_image (loaded_images fs2 dir2 albums)"
    unfolding erase_loaded_images by simp
  then show ?thesis unfolding layout_of_build by simp
qed

lemma numbered_files_resolve:
  "resolve numbered_files ''art'' [(''A'', 1), (''B'', 1)] (''A'', 1) = Some \<lparr>img_px = 9, img_w = 175, img_h = 175\<rparr>"
  "resolve numbered_files ''art'' [(''A'', 1), (''B'', 1)] (''B'', 1) = Some \<lparr>img_px = 9, img_w = 175, img_h = 175\<rparr>"
  by (simp_all add: resolve_def numbered_files_def get_cover_path_def path_join_def item_size_def scale_dimension_def)

theorem build_deterministic_witness:
  "resolve all_files ''covers'' [(''A'', 1), (''B'', 1)] (''A'', 1) \<noteq> None
   \<and> resolve numbered_files ''art'' [(''A'', 1), (''B'', 1)] (''A'', 1) \<noteq> None
   \<and> resolve all_files ''covers'' [(''A'', 1), (''B'', 1)] (''B'', 1) \<noteq> None
   \<and> resolve numbered_files ''art'' [(''A'', 1), (''B'', 1)] (''B'', 1) \<noteq> None
   \<and> layout_of (snd (build_cluster numbered_files [(''A'', 1), (''B'', 1)] ''art'' ''out.png''))
       = Some ([(175, 0, 175, 175), (0, 0, 175, 175)], 350, 175)"
  using build_deterministic [of "[(''A'', 1), (''B'', 1)]" all_files "''covers''" numbered_files "''art''"
      "''cluster.png''" "''out.png''"]
  by (simp add: all_files_resolve numbered_files_resolve all_files_canvas layout_of_def pasted_rect_def)

section \<open>Parsing an index file\<close>

lemma parse_no_terminator:
  "parse_index_content ''Album Index:\<newline>  A: 3 songs\<newline>  B: 5 songs\<newline>'' = ([], [])"
  by code_simp

lemma parse_with_total:
  "parse_index_content ''Album Index:\<newline>  A: 3 songs\<newline>  B: 5 songs\<newline>\<newline>Total songs: 8''
     = ([(''A'', 3), (''B'', 5)], [])"
  by code_simp

lemma parse_with_artists:
  "parse_index_content ''Album Index:\<newline>  A: 3 songs\<newline>  B: 5 songs\<newline>Artist Index:\<newline>  X: 2 songs\<newline>''
     = ([(''A'', 3), (''B'', 5)], [(''X'', 2)])"
  by code_simp

lemma parse_artists_only:
  "parse_index_content ''Artist Index:\<newline>  X: 2 songs\<newline>'' = ([], [(''X'', 2)])"
  by code_simp

text \<open>
  C8. An index file with the \<open>Album Index:\<close> header and two well-formed album lines, and
  neither an \<open>Artist Index:\<close> block nor a \<open>Total songs:\<close> line: the pattern for the album
  block needs one of the two after the block, and no album is returned. With the
  \<open>Total songs:\<close> line, or with an \<open>Artist Index:\<close> block, both albums are returned; and the
  pattern for the artist block accepts the end of the content in place of the
  \<open>Total songs:\<close> line.
\<close>

theorem parse_index_without_terminator:
  "parse_index_file [''index.txt'' \<mapsto> ''Album Index:\<newline>  A: 3 songs\<newline>  B: 5 songs\<newline>''] ''index.txt''
     = ([], [], [])
   \<and> parse_index_file [''index.txt'' \<mapsto> ''Album Index:\<newline>  A: 3 songs\<newline>  B: 5 songs\<newline>\<newline>Total songs: 8''] ''index.txt''
     = ([], [(''A'', 3), (''B'', 5)], [])
   \<and> parse_index_file [''index.txt'' \<mapsto> ''Album Index:\<newline>  A: 3 songs\<newline>  B: 5 songs\<newline>Artist Index:\<newline>  X: 2 songs\<newline>''] ''index.txt''
     = ([], [(''A'', 3), (''B'', 5)], [(''X'', 2)])
   \<and> parse_index_file [''index.txt'' \<mapsto> ''Artist Index:\<newline>  X: 2 songs\<newline>''] ''index.txt''
     = ([], [], [(''X'', 2)])"
  by (simp add: parse_index_file_def parse_no_terminator parse_with_total parse_with_artists parse_artists_only)

section \<open>The build on three albums of different weights\<close>

text \<open>
  Albums \<open>A\<close>, \<open>B\<close>, \<open>C\<close> with 10, 1 and 5 songs, every cover present: the sizes are 300,
  50 and 161, the Placer puts the 161 square left of the 300 square and the 50 square
  above it, and the Tightener pulls both toward the centroid. From the eighth pass on the
  50 square moves one pixel back and forth, so the run uses all 100 passes; the layout
  after an even number of passes is the one composed on the canvas.
\<close>

lemma tighten_loop_add: "tighten_loop (a + b) ps = tighten_loop b (tighten_loop a ps)"
proof (induction a arbitrary: ps)
  case 0
  then show ?case by simp
next
  case (Suc a)
  obtain ps' m where st: "tighten_pass ps = (ps', m)" by (cases "tighten_pass ps")
  show ?case
  proof (cases m)
    case True
    with Suc.IH [of ps'] show ?thesis by (simp add: st)
  next
    case False
    with st have "\<not> snd (tighten_pass ps)" by simp
    from tighten_pass_unmoved [OF this] st have ps': "ps' = ps" by simp
    have "tighten_loop b ps = ps" using \<open>\<not> snd (tighten_pass ps)\<close> by (rule tighten_loop_fixed)
    with False show ?thesis by (simp add: st ps')
  qed
qed

lemma tighten_loop_period2:
  assumes "tighten_pass ps = (qs, True)" and "tighten_pass qs = (ps, True)"
  shows "tighten_loop (2 * k) ps = ps"
proof (induction k)
  case 0
  then show ?case by simp
next
  case (Suc k)
  have "tighten_loop (2 * Suc k) ps = tighten_loop (Suc (Suc (2 * k))) ps" by simp
  also have "\<dots> = tighten_loop (2 * k) ps" by (simp add: assms del: mult_Suc_right)
  finally show ?case using Suc.IH by simp
qed

lemma scenario_A_images:
  "loaded_images all_files ''covers'' [(''A'', 10), (''B'', 1), (''C'', 5)]
     = [\<lparr>img_px = (), img_w = 300, img_h = 300\<rparr>, \<lparr>img_px = (), img_w = 161, img_h = 161\<rparr>,
        \<lparr>img_px = (), img_w = 50, img_h = 50\<rparr>]"
  by (simp add: loaded_images_def resolve_def all_files_def get_cover_path_def item_size_def scale_dimension_def py_int_def)

lemma scenario_A_second: "choose_position [square_at 300 0 0] 161 161 = (- 161, 0)"
  by (simp add: choose_position_def scored_candidates_def adjacency_candidates_def candidates_around_def
     bbox_def bbox_candidates_list center_distance_def Let_def square_at_def)

lemma scenario_A_third: "choose_position [square_at 300 0 0, square_at 161 (- 161) 0] 50 50 = (0, - 50)"
  by (simp add: choose_position_def scored_candidates_def adjacency_candidates_def candidates_around_def
     bbox_def bbox_candidates_list center_distance_def Let_def square_at_def)

lemma scenario_A_placed:
  "place_all [\<lparr>img_px = (), img_w = 300, img_h = 300\<rparr>, \<lparr>img_px = (), img_w = 161, img_h = 161\<rparr>,
        \<lparr>img_px = (), img_w = 50, img_h = 50\<rparr>]
     = [square_at 300 0 0, square_at 161 (- 161) 0, square_at 50 0 (- 50)]"
proof -
  have 1: "place_image [square_at 300 0 0] \<lparr>img_px = (), img_w = 161, img_h = 161\<rparr>
      = [square_at 300 0 0, square_at 161 (- 161) 0]"
    by (simp add: place_image_def scenario_A_second) (simp add: square_at_def)
  have 2: "place_image [square_at 300 0 0, square_at 161 (- 161) 0] \<lparr>img_px = (), img_w = 50, img_h = 50\<rparr>
      = [square_at 300 0 0, square_at 161 (- 161) 0, square_at 50 0 (- 50)]"
    by (simp add: place_image_def scenario_A_third) (simp add: square_at_def)
  have "place_all [\<lparr>img_px = (), img_w = 300, img_h = 300\<rparr>, \<lparr>img_px = (), img_w = 161, img_h = 161\<rparr>,
        \<lparr>img_px = (), img_w = 50, img_h = 50\<rparr>]
      = place_image (place_image [square_at 300 0 0] \<lparr>img_px = (), img_w = 161, img_h = 161\<rparr>)
          \<lparr>img_px = (), img_w = 50, img_h = 50\<rparr>"
    by (simp add: place_all_def Let_def square_at_def)
  then show ?thesis by (simp only: 1 2)
qed

lemma scenario_A_eight_passes:
  "tighten_loop 8 [square_at 300 0 0, square_at 161 (- 161) 0, square_at 50 0 (- 50)]
     = [square_at 300 0 0, square_at 161 (- 161) (- 18), square_at 50 10 (- 50)]"
  by code_simp

lemma scenario_A_cycle:
  "tighten_pass [square_at 300 0 0, square_at 161 (- 161) (- 18), square_at 50 10 (- 50)]
     = ([square_at 300 0 0, square_at 161 (- 161) (- 18), square_at 50 9 (- 50)], True)"
  "tighten_pass [square_at 300 0 0, square_at 161 (- 161) (- 18), square_at 50 9 (- 50)]
     = ([square_at 300 0 0, square_at 161 (- 161) (- 18), square_at 50 10 (- 50)], True)"
  by code_simp+

lemma scenario_A_layout:
  "final_layout all_files ''covers'' [(''A'', 10), (''B'', 1), (''C'', 5)]
     = [square_at 300 0 0, square_at 161 (- 161) (- 18), square_at 50 10 (- 50)]"
proof -
  have "tighten_loop (8 + 2 * 46) [square_at 300 0 0, square_at 161 (- 161) 0, square_at 50 0 (- 50)]
      = [square_at 300 0 0, square_at 161 (- 161) (- 18), square_at 50 10 (- 50)]"
    unfolding tighten_loop_add scenario_A_eight_passes
    by (rule tighten_loop_period2 [OF scenario_A_cycle])
  then show ?thesis by (simp add: final_layout_def scenario_A_images scenario_A_placed)
qed

lemma scenario_A_canvas:
  "snd (build_cluster all_files [(''A'', 10), (''B'', 1), (''C'', 5)] ''covers'' ''cluster.png'')
     = Saved \<lparr>canvas_file = ''cluster.png'', canvas_width = 461, canvas_height = 350,
               canvas_pasted = [(\<lparr>img_px = (), img_w = 300, img_h = 300\<rparr>, 161, 50),
                                (\<lparr>img_px = (), img_w = 161, img_h = 161\<rparr>, 0, 32),
                                (\<lparr>img_px = (), img_w = 50, img_h = 50\<rparr>, 171, 0)]\<rparr>"
  unfolding build_cluster_outcome scenario_A_layout
  by (simp add: scenario_A_images compose_def normalize_coords_def bbox_def square_at_def)

end
